theory Spec2Isabelle
  imports Main "HOL-Library.Word" "HOL-Library.AList" "HOL-Library.Signed_Division"
begin

section \<open>Time\<close>

text \<open>
  A \<^verbatim>\<open>time.Duration\<close> is a signed count of nanoseconds; a \<^verbatim>\<open>time.Time\<close> is
  modelled as the nanosecond reading of the (monotonic) clock. Every operation that calls
  \<^verbatim>\<open>time.Now()\<close> takes that reading as its first argument \<open>now\<close>; the readings taken
  inside one call are identified. Durations and instants are unbounded integers: the
  overflow of 64-bit nanosecond arithmetic is outside the model.
\<close>

type_synonym duration = int
type_synonym instant = int

definition Second :: duration where
  "Second = 1000000000"

definition Minute :: duration where
  "Minute = 60 * Second"

definition Hour :: duration where
  "Hour = 60 * Minute"

section \<open>storage: items\<close>

record 'v Item =
  Value :: 'v
  ExpiresAt :: instant
  HasTTL :: bool

definition IsExpired :: "instant \<Rightarrow> 'v Item \<Rightarrow> bool" where
  "IsExpired now i = (HasTTL i \<and> now > ExpiresAt i)"

definition SetTTL :: "instant \<Rightarrow> duration \<Rightarrow> 'v Item \<Rightarrow> 'v Item" where
  "SetTTL now ttl i =
     (if ttl \<noteq> 0 then i\<lparr>ExpiresAt := now + ttl, HasTTL := True\<rparr>
      else i\<lparr>HasTTL := False\<rparr>)"

text \<open>
  The coordinator's pool is only ever asked for items (nothing is put back into it), so
  \<^verbatim>\<open>c.itemPool.Get()\<close> always yields a zero item; \<open>pool_item v\<close> is that item after
  \<^verbatim>\<open>item.Value = value\<close>. The store's own pool receives removed items and is never read,
  so recycling is not observable and items are plain values here.
\<close>

definition pool_item :: "'v \<Rightarrow> 'v Item" where
  "pool_item v = \<lparr>Value = v, ExpiresAt = 0, HasTTL = False\<rparr>"

section \<open>storage: the in-memory store\<close>

text \<open>
  \<^verbatim>\<open>memoryStorage.data\<close> is a Go map; it is kept as an association list with one pair
  per key. The order of the list stands for the (unspecified) iteration order of the map.
  Locks are omitted: the model is the sequential behaviour of each call.
\<close>

type_synonym ('k, 'v) memoryStorage = "('k \<times> 'v Item) list"

definition NewMemoryStorageWithConfig :: "('k, 'v) memoryStorage" where
  "NewMemoryStorageWithConfig = []"

definition storage_Get ::
  "instant \<Rightarrow> 'k \<Rightarrow> ('k, 'v) memoryStorage \<Rightarrow> 'v Item option \<times> ('k, 'v) memoryStorage" where
  "storage_Get now key s =
     (case map_of s key of
        None \<Rightarrow> (None, s)
      | Some item \<Rightarrow>
          if IsExpired now item then (None, AList.delete key s)
          else (Some item, s))"

definition storage_Set :: "'k \<Rightarrow> 'v Item \<Rightarrow> ('k, 'v) memoryStorage \<Rightarrow> ('k, 'v) memoryStorage" where
  "storage_Set key item s = AList.update key item s"

definition storage_Delete :: "'k \<Rightarrow> ('k, 'v) memoryStorage \<Rightarrow> bool \<times> ('k, 'v) memoryStorage" where
  "storage_Delete key s =
     (case map_of s key of
        Some item \<Rightarrow> (True, AList.delete key s)
      | None \<Rightarrow> (False, s))"

definition storage_Clear :: "('k, 'v) memoryStorage \<Rightarrow> ('k, 'v) memoryStorage" where
  "storage_Clear s = []"

definition storage_Size :: "('k, 'v) memoryStorage \<Rightarrow> int" where
  "storage_Size s = int (length s)"

definition storage_Keys :: "('k, 'v) memoryStorage \<Rightarrow> 'k list" where
  "storage_Keys s = map fst s"

definition CleanupExpired :: "instant \<Rightarrow> ('k, 'v) memoryStorage \<Rightarrow> int \<times> ('k, 'v) memoryStorage" where
  "CleanupExpired now s =
     (int (length (filter (\<lambda>(k, item). IsExpired now item) s)),
      filter (\<lambda>(k, item). \<not> IsExpired now item) s)"

definition Reserve :: "int \<Rightarrow> ('k, 'v) memoryStorage \<Rightarrow> ('k, 'v) memoryStorage" where
  "Reserve n s = (if length s = 0 \<and> n > 0 then [] else s)"

section \<open>eviction: the three built-in policies\<close>

text \<open>
  Each policy keeps a \<^verbatim>\<open>container/list\<close> of keys and a map from key to list element.
  The list is \<open>'k list\<close> with \<^verbatim>\<open>Front()\<close> at the head; the map is the index of that
  list (a key is in the map exactly when it is in the list, once), so \<^verbatim>\<open>p.items[key]\<close>
  is membership and \<^verbatim>\<open>len(p.items)\<close> is the length. The \<^verbatim>\<open>capacity\<close> field only
  pre-sizes the map. The interface \<^verbatim>\<open>Policy[K]\<close> is the sum of the three types.
\<close>

datatype 'k Policy = lruPolicy "'k list" | fifoPolicy "'k list" | lifoPolicy "'k list"

datatype policy_kind = LRU | FIFO | LIFO

fun NewPolicy :: "policy_kind \<Rightarrow> 'k Policy" where
  "NewPolicy LRU = lruPolicy []"
| "NewPolicy FIFO = fifoPolicy []"
| "NewPolicy LIFO = lifoPolicy []"

fun order :: "'k Policy \<Rightarrow> 'k list" where
  "order (lruPolicy xs) = xs"
| "order (fifoPolicy xs) = xs"
| "order (lifoPolicy xs) = xs"

fun Access :: "'k \<Rightarrow> 'k Policy \<Rightarrow> 'k Policy" where
  "Access key (lruPolicy xs) =
     (if key \<in> set xs then lruPolicy (key # remove1 key xs) else lruPolicy (key # xs))"
| "Access key (fifoPolicy xs) =
     (if key \<notin> set xs then fifoPolicy (xs @ [key]) else fifoPolicy xs)"
| "Access key (lifoPolicy xs) =
     (if key \<notin> set xs then lifoPolicy (xs @ [key]) else lifoPolicy xs)"

fun Evict :: "'k Policy \<Rightarrow> 'k option \<times> 'k Policy" where
  "Evict (lruPolicy xs) =
     (if length xs = 0 then (None, lruPolicy xs) else (Some (last xs), lruPolicy (butlast xs)))"
| "Evict (fifoPolicy xs) =
     (if length xs = 0 then (None, fifoPolicy xs) else (Some (hd xs), fifoPolicy (tl xs)))"
| "Evict (lifoPolicy xs) =
     (if length xs = 0 then (None, lifoPolicy xs) else (Some (last xs), lifoPolicy (butlast xs)))"

fun Remove :: "'k \<Rightarrow> 'k Policy \<Rightarrow> 'k Policy" where
  "Remove key (lruPolicy xs) = (if key \<in> set xs then lruPolicy (remove1 key xs) else lruPolicy xs)"
| "Remove key (fifoPolicy xs) = (if key \<in> set xs then fifoPolicy (remove1 key xs) else fifoPolicy xs)"
| "Remove key (lifoPolicy xs) = (if key \<in> set xs then lifoPolicy (remove1 key xs) else lifoPolicy xs)"

fun policy_Clear :: "'k Policy \<Rightarrow> 'k Policy" where
  "policy_Clear (lruPolicy xs) = lruPolicy []"
| "policy_Clear (fifoPolicy xs) = fifoPolicy []"
| "policy_Clear (lifoPolicy xs) = lifoPolicy []"

definition policy_Size :: "'k Policy \<Rightarrow> int" where
  "policy_Size p = int (length (order p))"

section \<open>cache: configuration and construction\<close>

record Config =
  Capacity :: int
  EvictionPolicy :: "policy_kind option"
  ThreadSafe :: bool
  DefaultTTL :: duration
  MaxTTL :: duration

text \<open>
  The option builders. \<open>WithEvictionPolicy kind\<close> stands for supplying a freshly constructed
  policy of that kind; \<^verbatim>\<open>WithStorage\<close> is left out (the only store is the in-memory one,
  which \<^verbatim>\<open>New\<close> builds itself).
\<close>

datatype Option = WithCapacity int | WithEvictionPolicy policy_kind | WithThreadSafety bool
  | WithDefaultTTL duration | WithMaxTTL duration

fun apply_Option :: "Config \<Rightarrow> Option \<Rightarrow> Config" where
  "apply_Option c (WithCapacity n) = c\<lparr>Capacity := (if n \<le> 0 then 100 else n)\<rparr>"
| "apply_Option c (WithEvictionPolicy p) = c\<lparr>EvictionPolicy := Some p\<rparr>"
| "apply_Option c (WithThreadSafety b) = c\<lparr>ThreadSafe := b\<rparr>"
| "apply_Option c (WithDefaultTTL d) = c\<lparr>DefaultTTL := d\<rparr>"
| "apply_Option c (WithMaxTTL d) = c\<lparr>MaxTTL := d\<rparr>"

record ('k, 'v) cache =
  storage :: "('k, 'v) memoryStorage"
  policy :: "'k Policy"
  capacity :: int
  defaultTTL :: duration
  maxTTL :: duration
  hits :: "64 word"
  misses :: "64 word"
  evictions :: "64 word"
  threadSafe :: bool
  cleanupTicker :: "duration option"
  stopCleanup_closed :: bool

text \<open>
  \<^verbatim>\<open>startCleanup\<close> computes the ticker period and starts the sweeper; the model records
  the period in \<open>cleanupTicker\<close> (\<open>None\<close> is the nil ticker). Go's \<^verbatim>\<open>/\<close> on integers
  truncates towards zero, which is \<open>sdiv\<close>.
\<close>

definition cleanupInterval :: "duration \<Rightarrow> duration" where
  "cleanupInterval ttl =
     (let i = ttl sdiv 2;
          i = (if i > Minute then Minute else i);
          i = (if i < Second then Second else i)
      in i)"

definition startCleanup :: "('k, 'v) cache \<Rightarrow> ('k, 'v) cache" where
  "startCleanup c = c\<lparr>cleanupTicker := Some (cleanupInterval (defaultTTL c))\<rparr>"

definition default_Config :: Config where
  "default_Config =
     \<lparr>Capacity = 100, EvictionPolicy = None, ThreadSafe = True, DefaultTTL = 0, MaxTTL = 24 * Hour\<rparr>"

definition configure :: "Option list \<Rightarrow> Config" where
  "configure opts = foldl apply_Option default_Config opts"

definition New :: "Option list \<Rightarrow> ('k, 'v) cache" where
  "New opts =
     (let config = configure opts;
          pol = (case EvictionPolicy config of None \<Rightarrow> NewPolicy LRU | Some kind \<Rightarrow> NewPolicy kind);
          c = \<lparr>storage = Reserve (Capacity config) NewMemoryStorageWithConfig,
               policy = pol,
               capacity = Capacity config,
               defaultTTL = DefaultTTL config,
               maxTTL = MaxTTL config,
               hits = 0, misses = 0, evictions = 0,
               threadSafe = ThreadSafe config,
               cleanupTicker = None,
               stopCleanup_closed = False\<rparr>
      in if DefaultTTL config > 0 then startCleanup c else c)"

section \<open>cache: operations\<close>

definition Get :: "instant \<Rightarrow> 'k \<Rightarrow> ('k, 'v) cache \<Rightarrow> 'v option \<times> ('k, 'v) cache" where
  "Get now key c =
     (case storage_Get now key (storage c) of
        (Some item, st) \<Rightarrow>
          if \<not> IsExpired now item
          then (Some (Value item),
                c\<lparr>storage := st, policy := Access key (policy c), hits := hits c + 1\<rparr>)
          else (None, c\<lparr>storage := st, misses := misses c + 1\<rparr>)
      | (None, st) \<Rightarrow> (None, c\<lparr>storage := st, misses := misses c + 1\<rparr>))"

text \<open>
  The part shared by \<^verbatim>\<open>SetWithTTL\<close> and \<^verbatim>\<open>setBatchItem\<close> after the item has been
  prepared: replace a live entry, or else evict if the store is full and insert.
\<close>

definition evict_if_needed :: "('k, 'v) cache \<Rightarrow> ('k, 'v) cache" where
  "evict_if_needed c =
     (if storage_Size (storage c) \<ge> capacity c
      then (case Evict (policy c) of
              (Some evictKey, p) \<Rightarrow>
                c\<lparr>storage := snd (storage_Delete evictKey (storage c)), policy := p,
                  evictions := evictions c + 1\<rparr>
            | (None, p) \<Rightarrow> c\<lparr>policy := p\<rparr>)
      else c)"

definition store_item :: "instant \<Rightarrow> 'k \<Rightarrow> 'v Item \<Rightarrow> ('k, 'v) cache \<Rightarrow> bool \<times> ('k, 'v) cache" where
  "store_item now key item c =
     (case storage_Get now key (storage c) of
        (r, st) \<Rightarrow>
          if (case r of Some existing \<Rightarrow> \<not> IsExpired now existing | None \<Rightarrow> False)
          then (True, c\<lparr>storage := storage_Set key item st, policy := Access key (policy c)\<rparr>)
          else (let c1 = evict_if_needed (c\<lparr>storage := st\<rparr>)
                in (True, c1\<lparr>storage := storage_Set key item (storage c1),
                             policy := Access key (policy c1)\<rparr>)))"

definition SetWithTTL :: "instant \<Rightarrow> 'k \<Rightarrow> 'v \<Rightarrow> duration \<Rightarrow> ('k, 'v) cache \<Rightarrow> bool \<times> ('k, 'v) cache" where
  "SetWithTTL now key v ttl c =
     (let ttl = (if ttl > maxTTL c then maxTTL c else ttl);
          item = SetTTL now ttl (pool_item v)
      in store_item now key item c)"

definition Set :: "instant \<Rightarrow> 'k \<Rightarrow> 'v \<Rightarrow> ('k, 'v) cache \<Rightarrow> bool \<times> ('k, 'v) cache" where
  "Set now key v c = SetWithTTL now key v (defaultTTL c) c"

definition Delete :: "'k \<Rightarrow> ('k, 'v) cache \<Rightarrow> bool \<times> ('k, 'v) cache" where
  "Delete key c =
     (case storage_Delete key (storage c) of
        (True, st) \<Rightarrow> (True, c\<lparr>storage := st, policy := Remove key (policy c)\<rparr>)
      | (False, st) \<Rightarrow> (False, c\<lparr>storage := st\<rparr>))"

definition Clear :: "('k, 'v) cache \<Rightarrow> ('k, 'v) cache" where
  "Clear c = c\<lparr>storage := storage_Clear (storage c), policy := policy_Clear (policy c),
               hits := 0, misses := 0, evictions := 0\<rparr>"

definition Size :: "('k, 'v) cache \<Rightarrow> int" where
  "Size c = storage_Size (storage c)"

definition Keys :: "('k, 'v) cache \<Rightarrow> 'k list" where
  "Keys c = storage_Keys (storage c)"

definition Contains :: "instant \<Rightarrow> 'k \<Rightarrow> ('k, 'v) cache \<Rightarrow> bool \<times> ('k, 'v) cache" where
  "Contains now key c =
     (case storage_Get now key (storage c) of
        (Some item, st) \<Rightarrow> (\<not> IsExpired now item, c\<lparr>storage := st\<rparr>)
      | (None, st) \<Rightarrow> (False, c\<lparr>storage := st\<rparr>))"

definition setBatchItem :: "instant \<Rightarrow> 'k \<Rightarrow> 'v \<Rightarrow> ('k, 'v) cache \<Rightarrow> bool \<times> ('k, 'v) cache" where
  "setBatchItem now key v c = store_item now key (SetTTL now (defaultTTL c) (pool_item v)) c"

text \<open>
  \<^verbatim>\<open>SetBatch\<close> ranges over a Go map; the argument is the list of its pairs in the order
  the runtime happens to visit them.
\<close>

fun SetBatch :: "instant \<Rightarrow> ('k \<times> 'v) list \<Rightarrow> ('k, 'v) cache \<Rightarrow> int \<times> ('k, 'v) cache" where
  "SetBatch now [] c = (0, c)"
| "SetBatch now ((key, v) # items) c =
     (case setBatchItem now key v c of
        (ok, c1) \<Rightarrow> (case SetBatch now items c1 of
                       (count, c2) \<Rightarrow> ((if ok then count + 1 else count), c2)))"

text \<open>
  \<^verbatim>\<open>GetBatch\<close> builds its result map by \<^verbatim>\<open>result[key] = item.Value\<close>; the result is an
  association list updated in place, so that a repeated key does not add a pair.
\<close>

fun GetBatch_loop ::
  "instant \<Rightarrow> 'k list \<Rightarrow> ('k \<times> 'v) list \<Rightarrow> ('k, 'v) cache \<Rightarrow> ('k \<times> 'v) list \<times> ('k, 'v) cache" where
  "GetBatch_loop now [] result c = (result, c)"
| "GetBatch_loop now (key # keys) result c =
     (case storage_Get now key (storage c) of
        (Some item, st) \<Rightarrow>
          if \<not> IsExpired now item
          then GetBatch_loop now keys (AList.update key (Value item) result)
                 (c\<lparr>storage := st, policy := Access key (policy c), hits := hits c + 1\<rparr>)
          else GetBatch_loop now keys result (c\<lparr>storage := st, misses := misses c + 1\<rparr>)
      | (None, st) \<Rightarrow> GetBatch_loop now keys result (c\<lparr>storage := st, misses := misses c + 1\<rparr>))"

definition GetBatch :: "instant \<Rightarrow> 'k list \<Rightarrow> ('k, 'v) cache \<Rightarrow> ('k \<times> 'v) list \<times> ('k, 'v) cache" where
  "GetBatch now keys c = GetBatch_loop now keys [] c"

fun DeleteBatch :: "'k list \<Rightarrow> ('k, 'v) cache \<Rightarrow> int \<times> ('k, 'v) cache" where
  "DeleteBatch [] c = (0, c)"
| "DeleteBatch (key # keys) c =
     (case Delete key c of
        (removed, c1) \<Rightarrow> (case DeleteBatch keys c1 of
                            (count, c2) \<Rightarrow> ((if removed then count + 1 else count), c2)))"

definition cleanup :: "instant \<Rightarrow> ('k, 'v) cache \<Rightarrow> ('k, 'v) cache" where
  "cleanup now c = c\<lparr>storage := snd (CleanupExpired now (storage c))\<rparr>"

text \<open>
  \<^verbatim>\<open>Close\<close> closes the stop channel when a ticker exists. Closing a channel that is
  already closed panics in Go; the panic is the \<open>Inl\<close> result.
\<close>

datatype panic = close_of_closed_channel

definition Close :: "('k, 'v) cache \<Rightarrow> panic + ('k, 'v) cache" where
  "Close c =
     (if cleanupTicker c \<noteq> None
      then (if stopCleanup_closed c then Inl close_of_closed_channel
            else Inr (c\<lparr>stopCleanup_closed := True\<rparr>))
      else Inr c)"

section \<open>Sequences of operations\<close>

text \<open>
  An event is one public operation, or one tick of the background sweeper, together with the
  clock reading at which it runs. A tick does something only while the sweeper exists and has
  not been stopped. \<open>run\<close> threads the cache through a list of events and drops the
  returned values.
\<close>

datatype ('k, 'v) event =
    EGet 'k
  | ESet 'k 'v
  | ESetWithTTL 'k 'v duration
  | EDelete 'k
  | EClear
  | ESize
  | EKeys
  | EContains 'k
  | ESetBatch "('k \<times> 'v) list"
  | EGetBatch "'k list"
  | EDeleteBatch "'k list"
  | ETick

fun step :: "instant \<Rightarrow> ('k, 'v) event \<Rightarrow> ('k, 'v) cache \<Rightarrow> ('k, 'v) cache" where
  "step now (EGet k) c = snd (Get now k c)"
| "step now (ESet k v) c = snd (Set now k v c)"
| "step now (ESetWithTTL k v ttl) c = snd (SetWithTTL now k v ttl c)"
| "step now (EDelete k) c = snd (Delete k c)"
| "step now EClear c = Clear c"
| "step now ESize c = c"
| "step now EKeys c = c"
| "step now (EContains k) c = snd (Contains now k c)"
| "step now (ESetBatch items) c = snd (SetBatch now items c)"
| "step now (EGetBatch keys) c = snd (GetBatch now keys c)"
| "step now (EDeleteBatch keys) c = snd (DeleteBatch keys c)"
| "step now ETick c =
     (if cleanupTicker c \<noteq> None \<and> \<not> stopCleanup_closed c then cleanup now c else c)"

fun run :: "(instant \<times> ('k, 'v) event) list \<Rightarrow> ('k, 'v) cache \<Rightarrow> ('k, 'v) cache" where
  "run [] c = c"
| "run ((now, e) # es) c = run es (step now e c)"

section \<open>Predicates used in the statements\<close>

text \<open>
  A cache is coherent when the store holds one pair per key, the policy lists each tracked
  key once, and every stored key is tracked by the policy.
\<close>

definition coherent :: "('k, 'v) cache \<Rightarrow> bool" where
  "coherent c \<longleftrightarrow>
     distinct (map fst (storage c)) \<and> distinct (order (policy c)) \<and>
     fst ` set (storage c) \<subseteq> set (order (policy c))"

definition settings ::
  "('k, 'v) cache \<Rightarrow> int \<times> duration \<times> duration \<times> bool \<times> duration option \<times> bool" where
  "settings c =
     (capacity c, defaultTTL c, maxTTL c, threadSafe c, cleanupTicker c, stopCleanup_closed c)"

text \<open>
  The value a lookup of \<open>k\<close> at time \<open>now\<close> yields: that of the stored entry when there is
  one and it has not expired. A key is live when there is such a value.
\<close>

definition live_value :: "instant \<Rightarrow> ('k, 'v) cache \<Rightarrow> 'k \<Rightarrow> 'v option" where
  "live_value now c k =
     (case map_of (storage c) k of
        Some item \<Rightarrow> if IsExpired now item then None else Some (Value item)
      | None \<Rightarrow> None)"

definition live :: "instant \<Rightarrow> ('k, 'v) cache \<Rightarrow> 'k \<Rightarrow> bool" where
  "live now c k \<longleftrightarrow> live_value now c k \<noteq> None"

text \<open>
  An event is TTL-free for a cache when every entry it stores gets an effective TTL of zero:
  \<open>SetWithTTL\<close> and \<open>Set\<close> clamp the TTL to the configured maximum, \<open>SetBatch\<close> uses the
  default TTL as it is.
\<close>

fun ttl_free :: "('k, 'v) cache \<Rightarrow> ('k, 'v) event \<Rightarrow> bool" where
  "ttl_free c (ESet k v) = ((if defaultTTL c > maxTTL c then maxTTL c else defaultTTL c) = 0)"
| "ttl_free c (ESetWithTTL k v ttl) = ((if ttl > maxTTL c then maxTTL c else ttl) = 0)"
| "ttl_free c (ESetBatch items) = (items = [] \<or> defaultTTL c = 0)"
| "ttl_free c (EGet k) = True"
| "ttl_free c (EDelete k) = True"
| "ttl_free c EClear = True"
| "ttl_free c ESize = True"
| "ttl_free c EKeys = True"
| "ttl_free c (EContains k) = True"
| "ttl_free c (EGetBatch keys) = True"
| "ttl_free c (EDeleteBatch keys) = True"
| "ttl_free c ETick = True"

text \<open>
  A cache is plain when it is coherent, the policy tracks stored keys only, no stored entry
  carries a TTL, and the store holds at most \<open>capacity\<close> entries (with \<open>capacity\<close> positive).
\<close>

definition plain :: "('k, 'v) cache \<Rightarrow> bool" where
  "plain c \<longleftrightarrow>
     coherent c \<and> set (order (policy c)) \<subseteq> fst ` set (storage c) \<and>
     (\<forall>(k, i) \<in> set (storage c). \<not> HasTTL i) \<and>
     1 \<le> capacity c \<and> int (length (storage c)) \<le> capacity c"

text \<open>
  An event purges when it removes an expired entry from the store and leaves it out: a
  lookup (\<open>Get\<close>, \<open>Contains\<close>, \<open>GetBatch\<close>) of a key whose stored entry has expired, or a
  tick of a running sweeper while some stored entry has expired. A run is free of purges when
  none of its events purges in the cache it meets.
\<close>

definition expired_entry :: "instant \<Rightarrow> ('k, 'v) cache \<Rightarrow> 'k \<Rightarrow> bool" where
  "expired_entry now c k =
     (case map_of (storage c) k of Some item \<Rightarrow> IsExpired now item | None \<Rightarrow> False)"

fun purges :: "instant \<Rightarrow> ('k, 'v) event \<Rightarrow> ('k, 'v) cache \<Rightarrow> bool" where
  "purges now (EGet k) c = expired_entry now c k"
| "purges now (EContains k) c = expired_entry now c k"
| "purges now (EGetBatch keys) c = list_ex (expired_entry now c) keys"
| "purges now ETick c =
     (cleanupTicker c \<noteq> None \<and> \<not> stopCleanup_closed c \<and>
      list_ex (\<lambda>(k, item). IsExpired now item) (storage c))"
| "purges now (ESet k v) c = False"
| "purges now (ESetWithTTL k v ttl) c = False"
| "purges now (EDelete k) c = False"
| "purges now EClear c = False"
| "purges now ESize c = False"
| "purges now EKeys c = False"
| "purges now (ESetBatch items) c = False"
| "purges now (EDeleteBatch keys) c = False"

fun purge_free :: "(instant \<times> ('k, 'v) event) list \<Rightarrow> ('k, 'v) cache \<Rightarrow> bool" where
  "purge_free [] c = True"
| "purge_free ((now, e) # es) c = (\<not> purges now e c \<and> purge_free es (step now e c))"

text \<open>
  A cache is tight when it is coherent and the policy tracks stored keys only.
\<close>

definition tight :: "('k, 'v) cache \<Rightarrow> bool" where
  "tight c \<longleftrightarrow> coherent c \<and> set (order (policy c)) \<subseteq> fst ` set (storage c)"

text \<open>
  \<open>victim now key c\<close> is the key that storing \<open>key\<close> at time \<open>now\<close> takes from the policy
  as its eviction victim, if any: none when \<open>key\<close> has a live entry (it is replaced), none
  when the store is below capacity after the lookup, else whatever \<open>Evict\<close> selects.
\<close>

definition victim :: "instant \<Rightarrow> 'k \<Rightarrow> ('k, 'v) cache \<Rightarrow> 'k option" where
  "victim now key c =
     (case storage_Get now key (storage c) of
        (r, st) \<Rightarrow>
          if (case r of Some existing \<Rightarrow> \<not> IsExpired now existing | None \<Rightarrow> False) then None
          else if storage_Size st \<ge> capacity c then fst (Evict (policy c)) else None)"

text \<open>
  An event leaves the key \<open>k\<close> alone when it does not delete, clear, overwrite or evict it:
  lookups and sweeper ticks always do; a delete does when it names another key; a store does
  when it writes another key and its eviction victim is not \<open>k\<close>. A run leaves \<open>k\<close> alone
  when each of its events does, in the cache it meets.
\<close>

fun batch_keeps :: "'k \<Rightarrow> instant \<Rightarrow> ('k \<times> 'v) list \<Rightarrow> ('k, 'v) cache \<Rightarrow> bool" where
  "batch_keeps k now [] c = True"
| "batch_keeps k now ((key, v) # items) c =
     (key \<noteq> k \<and> victim now key c \<noteq> Some k \<and>
      batch_keeps k now items (snd (setBatchItem now key v c)))"

fun keeps :: "'k \<Rightarrow> instant \<Rightarrow> ('k, 'v) event \<Rightarrow> ('k, 'v) cache \<Rightarrow> bool" where
  "keeps k now (EGet key) c = True"
| "keeps k now (EContains key) c = True"
| "keeps k now (EGetBatch keys) c = True"
| "keeps k now ETick c = True"
| "keeps k now ESize c = True"
| "keeps k now EKeys c = True"
| "keeps k now (EDelete key) c = (key \<noteq> k)"
| "keeps k now (EDeleteBatch keys) c = (k \<notin> set keys)"
| "keeps k now EClear c = False"
| "keeps k now (ESet key v) c = (key \<noteq> k \<and> victim now key c \<noteq> Some k)"
| "keeps k now (ESetWithTTL key v ttl) c = (key \<noteq> k \<and> victim now key c \<noteq> Some k)"
| "keeps k now (ESetBatch items) c = batch_keeps k now items c"

fun left_alone :: "'k \<Rightarrow> (instant \<times> ('k, 'v) event) list \<Rightarrow> ('k, 'v) cache \<Rightarrow> bool" where
  "left_alone k [] c = True"
| "left_alone k ((now, e) # es) c = (keeps k now e c \<and> left_alone k es (step now e c))"

section \<open>The store and the policies, one call at a time\<close>

lemma storage_Get_cases:
  "snd (storage_Get now k s) = s \<or> snd (storage_Get now k s) = AList.delete k s"
  by (simp add: storage_Get_def split: option.split)

lemma storage_Get_keys_subset: "fst ` set (snd (storage_Get now k s)) \<subseteq> fst ` set s"
proof -
  have "fst ` set (AList.delete k s) \<subseteq> fst ` set s" by (rule dom_delete_subset)
  with storage_Get_cases [of now k s] show ?thesis by (elim disjE) simp_all
qed

lemma storage_Get_distinct:
  "distinct (map fst s) \<Longrightarrow> distinct (map fst (snd (storage_Get now k s)))"
  using storage_Get_cases [of now k s] by (auto simp: distinct_delete)

lemma storage_Get_Some: "storage_Get now k s = (Some item, st) \<Longrightarrow>
  st = s \<and> map_of s k = Some item \<and> \<not> IsExpired now item"
  by (auto simp: storage_Get_def split: option.splits if_splits)

lemma storage_Delete_keys:
  "fst ` set (snd (storage_Delete k s)) = fst ` set s - {k}"
proof (cases "map_of s k")
  case None
  then have "k \<notin> fst ` set s" by (simp add: map_of_eq_None_iff)
  with None show ?thesis by (simp add: storage_Delete_def)
next
  case (Some a)
  have "set (map fst (AList.delete k s)) = set (map fst s) - {k}"
    unfolding delete_keys by simp
  with Some show ?thesis by (simp add: storage_Delete_def)
qed

lemma storage_Delete_distinct:
  "distinct (map fst s) \<Longrightarrow> distinct (map fst (snd (storage_Delete k s)))"
  by (simp add: storage_Delete_def distinct_delete split: option.split)

lemma storage_Delete_fst: "fst (storage_Delete k s) \<longleftrightarrow> k \<in> fst ` set s"
proof (cases "map_of s k")
  case None
  then have "k \<notin> fst ` set s" by (simp add: map_of_eq_None_iff)
  with None show ?thesis by (simp add: storage_Delete_def)
next
  case (Some a)
  then have "k \<in> fst ` set s" by (metis map_of_eq_None_iff option.distinct(1))
  with Some show ?thesis by (simp add: storage_Delete_def)
qed

lemma storage_Set_keys: "fst ` set (storage_Set k i s) = insert k (fst ` set s)"
  by (simp add: storage_Set_def dom_update)

lemma storage_Set_distinct:
  "distinct (map fst s) \<Longrightarrow> distinct (map fst (storage_Set k i s))"
  by (simp add: storage_Set_def distinct_update)

lemma insert_remove1: "insert k (set (remove1 k xs)) = insert k (set xs)"
  by (induction xs) auto

lemma Access_order: "set (order (Access k p)) = insert k (set (order p))"
  by (cases p) (auto simp: insert_remove1)

lemma Access_distinct: "distinct (order p) \<Longrightarrow> distinct (order (Access k p))"
  by (cases p) auto

lemma Evict_None: "Evict p = (None, p') \<Longrightarrow> p' = p \<and> order p = []"
  by (cases p) (auto split: if_splits)

lemma Evict_Some:
  assumes "Evict p = (Some k, p')" "distinct (order p)"
  shows "set (order p') = set (order p) - {k} \<and> k \<in> set (order p) \<and> distinct (order p')"
proof -
  have bl: "\<And>xs::'k list. xs \<noteq> [] \<Longrightarrow> distinct xs \<Longrightarrow>
      set (butlast xs) = set xs - {last xs} \<and> distinct (butlast xs)"
  proof -
    fix xs :: "'k list" assume "xs \<noteq> []" "distinct xs"
    then obtain ys y where xs: "xs = ys @ [y]" by (metis append_butlast_last_id)
    with \<open>distinct xs\<close> show "set (butlast xs) = set xs - {last xs} \<and> distinct (butlast xs)"
      by auto
  qed
  have tl: "\<And>xs::'k list. xs \<noteq> [] \<Longrightarrow> distinct xs \<Longrightarrow>
      set (tl xs) = set xs - {hd xs} \<and> distinct (tl xs)"
    by (case_tac xs) auto
  from assms show ?thesis
    by (cases p) (auto split: if_splits simp: bl tl distinct_tl)
qed

lemma Remove_order: "distinct (order p) \<Longrightarrow> set (order (Remove k p)) = set (order p) - {k}"
  by (cases p) auto

lemma Remove_distinct: "distinct (order p) \<Longrightarrow> distinct (order (Remove k p))"
  by (cases p) auto

lemma policy_Clear_order: "order (policy_Clear p) = []"
  by (cases p) auto

section \<open>Coherence of store and policy is preserved\<close>

lemma coherent_purge:
  assumes "coherent c"
  shows "coherent (c\<lparr>storage := snd (storage_Get now k (storage c))\<rparr>)"
  using assms storage_Get_keys_subset [of now k "storage c"]
    storage_Get_distinct [of "storage c" now k]
  by (auto simp: coherent_def)

lemma coherent_evict_if_needed:
  assumes "coherent c"
  shows "coherent (evict_if_needed c)"
proof (cases "storage_Size (storage c) \<ge> capacity c")
  case False
  with assms show ?thesis by (simp add: evict_if_needed_def)
next
  case True
  obtain r p where ev: "Evict (policy c) = (r, p)" by (cases "Evict (policy c)")
  show ?thesis
  proof (cases r)
    case None
    with ev have "p = policy c" by (simp add: Evict_None)
    with True ev None assms show ?thesis by (simp add: evict_if_needed_def coherent_def)
  next
    case (Some ek)
    from assms have d: "distinct (order (policy c))" by (simp add: coherent_def)
    from Evict_Some [OF ev [unfolded Some] d]
    have p: "set (order p) = set (order (policy c)) - {ek}" "distinct (order p)" by simp_all
    have "evict_if_needed c =
        c\<lparr>storage := snd (storage_Delete ek (storage c)), policy := p, evictions := evictions c + 1\<rparr>"
      using True ev Some by (simp add: evict_if_needed_def)
    with assms p show ?thesis
      by (auto simp: coherent_def storage_Delete_keys storage_Delete_distinct)
  qed
qed

lemma coherent_insert:
  assumes "coherent c"
  shows "coherent (c\<lparr>storage := storage_Set k i (storage c), policy := Access k (policy c)\<rparr>)"
  using assms
  by (auto simp: coherent_def storage_Set_keys storage_Set_distinct Access_order Access_distinct)

lemma coherent_touch:
  assumes "coherent c"
  shows "coherent (c\<lparr>policy := Access k (policy c)\<rparr>)"
  using assms by (auto simp: coherent_def Access_order Access_distinct)

lemma store_item_unfold:
  "snd (store_item now k i c) =
     (let c0 = c\<lparr>storage := snd (storage_Get now k (storage c))\<rparr>;
          c1 = (if fst (storage_Get now k (storage c)) \<noteq> None then c0 else evict_if_needed c0)
      in c1\<lparr>storage := storage_Set k i (storage c1), policy := Access k (policy c1)\<rparr>)"
  by (cases "storage_Get now k (storage c)")
     (auto simp: store_item_def Let_def split: option.splits dest: storage_Get_Some)

lemma coherent_store_item:
  assumes "coherent c"
  shows "coherent (snd (store_item now k i c))"
proof -
  let ?c0 = "c\<lparr>storage := snd (storage_Get now k (storage c))\<rparr>"
  have c0: "coherent ?c0" using assms by (rule coherent_purge)
  show ?thesis
  proof (cases "fst (storage_Get now k (storage c)) \<noteq> None")
    case True
    with coherent_insert [OF c0, of k i] show ?thesis
      by (simp add: store_item_unfold Let_def)
  next
    case False
    with coherent_insert [OF coherent_evict_if_needed [OF c0], of k i] show ?thesis
      by (simp add: store_item_unfold Let_def)
  qed
qed

lemma Get_unfold:
  "snd (Get now k c) =
     (let c0 = c\<lparr>storage := snd (storage_Get now k (storage c))\<rparr>
      in if fst (storage_Get now k (storage c)) \<noteq> None
         then c0\<lparr>policy := Access k (policy c0), hits := hits c0 + 1\<rparr>
         else c0\<lparr>misses := misses c0 + 1\<rparr>)"
  by (cases "storage_Get now k (storage c)")
     (auto simp: Get_def Let_def split: option.splits dest: storage_Get_Some)

lemma coherent_counters [simp]:
  "coherent (c\<lparr>hits := h\<rparr>) = coherent c"
  "coherent (c\<lparr>misses := m\<rparr>) = coherent c"
  "coherent (c\<lparr>evictions := e\<rparr>) = coherent c"
  by (simp_all add: coherent_def)

lemma coherent_Get:
  assumes "coherent c"
  shows "coherent (snd (Get now k c))"
proof -
  let ?c0 = "c\<lparr>storage := snd (storage_Get now k (storage c))\<rparr>"
  have c0: "coherent ?c0" using assms by (rule coherent_purge)
  with coherent_touch [OF c0, of k] show ?thesis
    by (simp add: Get_unfold Let_def)
qed

lemma Contains_unfold:
  "snd (Contains now k c) = c\<lparr>storage := snd (storage_Get now k (storage c))\<rparr>"
  by (cases "storage_Get now k (storage c)") (auto simp: Contains_def split: option.splits)

lemma coherent_Contains: "coherent c \<Longrightarrow> coherent (snd (Contains now k c))"
  unfolding Contains_unfold by (rule coherent_purge)

lemma Delete_unfold:
  "snd (Delete k c) =
     (if fst (storage_Delete k (storage c))
      then c\<lparr>storage := snd (storage_Delete k (storage c)), policy := Remove k (policy c)\<rparr>
      else c\<lparr>storage := snd (storage_Delete k (storage c))\<rparr>)"
  by (cases "storage_Delete k (storage c)") (auto simp: Delete_def split: bool.splits)

lemma coherent_Delete:
  assumes "coherent c"
  shows "coherent (snd (Delete k c))"
  using assms unfolding Delete_unfold
  by (auto simp: coherent_def storage_Delete_keys storage_Delete_distinct Remove_order Remove_distinct)

lemma coherent_Clear: "coherent (Clear c)"
  by (simp add: coherent_def Clear_def storage_Clear_def policy_Clear_order)

lemma coherent_cleanup:
  assumes "coherent c"
  shows "coherent (cleanup now c)"
  using assms by (auto simp: coherent_def cleanup_def CleanupExpired_def distinct_map_filter)

lemma SetBatch_snd:
  "snd (SetBatch now ((k, v) # items) c) = snd (SetBatch now items (snd (setBatchItem now k v c)))"
  by (simp split: prod.splits)

lemma DeleteBatch_snd:
  "snd (DeleteBatch (k # ks) c) = snd (DeleteBatch ks (snd (Delete k c)))"
  by (simp split: prod.splits)

lemma order_NewPolicy: "order (NewPolicy kind) = []"
  by (cases kind) simp_all

lemma coherent_SetBatch: "coherent c \<Longrightarrow> coherent (snd (SetBatch now items c))"
proof (induction items arbitrary: c)
  case Nil
  then show ?case by simp
next
  case (Cons a items)
  obtain k v where a: "a = (k, v)" by (cases a)
  have "coherent (snd (setBatchItem now k v c))"
    unfolding setBatchItem_def using Cons.prems by (rule coherent_store_item)
  from Cons.IH [OF this] show ?case
    unfolding a SetBatch_snd .
qed

lemma GetBatch_loop_snd:
  "snd (GetBatch_loop now (k # ks) res c) =
     snd (GetBatch_loop now ks
            (if fst (storage_Get now k (storage c)) \<noteq> None
             then AList.update k (Value (the (fst (storage_Get now k (storage c))))) res else res)
            (snd (Get now k c)))"
  by (cases "storage_Get now k (storage c)")
     (auto simp: Get_def split: option.splits dest: storage_Get_Some)

lemma coherent_GetBatch_loop: "coherent c \<Longrightarrow> coherent (snd (GetBatch_loop now ks res c))"
proof (induction ks arbitrary: c res)
  case Nil
  then show ?case by simp
next
  case (Cons k ks)
  from Cons.prems have "coherent (snd (Get now k c))" by (rule coherent_Get)
  from Cons.IH [OF this] show ?case unfolding GetBatch_loop_snd .
qed

lemma coherent_DeleteBatch: "coherent c \<Longrightarrow> coherent (snd (DeleteBatch ks c))"
proof (induction ks arbitrary: c)
  case Nil
  then show ?case by simp
next
  case (Cons k ks)
  from Cons.prems have "coherent (snd (Delete k c))" by (rule coherent_Delete)
  from Cons.IH [OF this] show ?case unfolding DeleteBatch_snd .
qed

lemma coherent_step: "coherent c \<Longrightarrow> coherent (step now e c)"
  by (cases e)
     (simp_all add: coherent_Get coherent_store_item coherent_Delete coherent_Clear
        coherent_Contains coherent_SetBatch coherent_GetBatch_loop coherent_DeleteBatch
        coherent_cleanup Set_def SetWithTTL_def GetBatch_def Let_def)

lemma coherent_run: "coherent c \<Longrightarrow> coherent (run es c)"
  by (induction es arbitrary: c) (auto simp: coherent_step)

lemma coherent_New: "coherent (New opts)"
  by (simp add: New_def Let_def startCleanup_def coherent_def Reserve_def
      NewMemoryStorageWithConfig_def order_NewPolicy split: option.splits)

section \<open>Configuration is fixed at construction; the sweeper and Close\<close>

lemma settings_evict_if_needed: "settings (evict_if_needed c) = settings c"
  by (simp add: evict_if_needed_def settings_def split: prod.splits option.splits)

lemma settings_store_item: "settings (snd (store_item now k i c)) = settings c"
  using settings_evict_if_needed [of "c\<lparr>storage := snd (storage_Get now k (storage c))\<rparr>"]
  by (simp add: store_item_unfold Let_def settings_def)

lemma settings_Get: "settings (snd (Get now k c)) = settings c"
  by (simp add: Get_unfold Let_def settings_def)

lemma settings_Delete: "settings (snd (Delete k c)) = settings c"
  by (simp add: Delete_unfold settings_def)

lemma settings_SetBatch: "settings (snd (SetBatch now items c)) = settings c"
proof (induction items arbitrary: c)
  case Nil
  show ?case by simp
next
  case (Cons a items)
  obtain k v where a: "a = (k, v)" by (cases a)
  show ?case unfolding a SetBatch_snd Cons.IH setBatchItem_def by (rule settings_store_item)
qed

lemma settings_GetBatch_loop: "settings (snd (GetBatch_loop now ks res c)) = settings c"
proof (induction ks arbitrary: c res)
  case Nil
  show ?case by simp
next
  case (Cons k ks)
  show ?case unfolding GetBatch_loop_snd Cons.IH by (rule settings_Get)
qed

lemma settings_DeleteBatch: "settings (snd (DeleteBatch ks c)) = settings c"
proof (induction ks arbitrary: c)
  case Nil
  show ?case by simp
next
  case (Cons k ks)
  show ?case unfolding DeleteBatch_snd Cons.IH by (rule settings_Delete)
qed

lemma settings_step: "settings (step now e c) = settings c"
proof (cases e)
  case (ESet k v)
  then show ?thesis by (simp add: Set_def SetWithTTL_def Let_def settings_store_item)
next
  case (ESetWithTTL k v ttl)
  then show ?thesis by (simp add: SetWithTTL_def Let_def settings_store_item)
next
  case EClear
  then show ?thesis by (simp add: Clear_def settings_def)
next
  case (EContains k)
  then show ?thesis by (simp add: Contains_unfold settings_def)
next
  case ETick
  then show ?thesis by (simp add: cleanup_def settings_def)
qed (simp_all add: settings_Get settings_Delete settings_SetBatch settings_GetBatch_loop
       settings_DeleteBatch GetBatch_def)

lemma settings_run: "settings (run es c) = settings c"
  by (induction es arbitrary: c) (auto simp: settings_step)

lemma settings_New:
  "settings (New opts) =
     (Capacity (configure opts), DefaultTTL (configure opts), MaxTTL (configure opts),
      ThreadSafe (configure opts),
      (if DefaultTTL (configure opts) > 0
       then Some (cleanupInterval (DefaultTTL (configure opts))) else None),
      False)"
  by (simp add: New_def Let_def settings_def startCleanup_def)

lemma cleanupInterval_pos:
  "0 < d \<Longrightarrow> cleanupInterval d = max Second (min Minute (d div 2))"
  by (simp add: cleanupInterval_def Let_def signed_divide_int_def Second_def Minute_def sgn_if max_def min_def)

lemma ticker_run: "cleanupTicker (run es c) = cleanupTicker c"
  using settings_run [of es c] by (simp add: settings_def)

lemma closed_run: "stopCleanup_closed (run es c) = stopCleanup_closed c"
  using settings_run [of es c] by (simp add: settings_def)

lemma ticker_New:
  "cleanupTicker (New opts) =
     (if DefaultTTL (configure opts) > 0
      then Some (cleanupInterval (DefaultTTL (configure opts))) else None)"
  by (simp add: New_def Let_def startCleanup_def)

lemma closed_New: "stopCleanup_closed (New opts) = False"
  by (simp add: New_def Let_def startCleanup_def)

text \<open>
  Claim C7. When the configured default TTL is positive, the sweeper started by \<open>New\<close> ticks
  with period \<open>max(1s, min(1min, default_ttl / 2))\<close>; when the default TTL is zero no
  sweeper is started (the ticker stays nil).
\<close>

theorem C7_sweeper_period:
  "(0 < DefaultTTL (configure opts) \<longrightarrow>
      cleanupTicker (New opts :: ('k, 'v) cache)
        = Some (max Second (min Minute (DefaultTTL (configure opts) div 2))))
   \<and> (DefaultTTL (configure opts) = 0 \<longrightarrow> cleanupTicker (New opts :: ('k, 'v) cache) = None)"
  by (simp add: ticker_New cleanupInterval_pos)

theorem C7_sweeper_period_witness:
  "0 < DefaultTTL (configure [WithDefaultTTL 3000000001])
   \<and> cleanupTicker (New [WithDefaultTTL 3000000001] :: (nat, nat) cache) = Some 1500000000
   \<and> DefaultTTL (configure []) = 0
   \<and> cleanupTicker (New [] :: (nat, nat) cache) = None"
  using C7_sweeper_period [of "[WithDefaultTTL 3000000001]", where ?'k = nat and ?'v = nat]
    C7_sweeper_period [of "[]", where ?'k = nat and ?'v = nat]
  by (simp add: configure_def default_Config_def Second_def Minute_def)

text \<open>
  Claim C10. On a cache built with default TTL zero, \<open>Close\<close> returns normally and changes
  nothing, after any sequence of events. On a cache built with a positive default TTL the first
  \<open>Close\<close> closes the stop channel, and a later \<open>Close\<close> (whatever events run in between)
  panics by closing the closed channel: \<open>Close\<close> is not idempotent.
\<close>

theorem C10_close:
  "(DefaultTTL (configure opts) = 0 \<longrightarrow>
      Close (run es (New opts)) = Inr (run es (New opts) :: ('k, 'v) cache))
   \<and> (DefaultTTL (configure opts) > 0 \<longrightarrow>
      (\<exists>c' :: ('k, 'v) cache. Close (run es (New opts)) = Inr c'
         \<and> Close (run es' c') = Inl close_of_closed_channel))"
proof -
  let ?c = "run es (New opts) :: ('k, 'v) cache"
  have "Close ?c = Inr ?c" if "DefaultTTL (configure opts) = 0"
    using that by (simp add: Close_def ticker_run ticker_New)
  moreover have "\<exists>c' :: ('k, 'v) cache. Close ?c = Inr c' \<and> Close (run es' c') = Inl close_of_closed_channel"
    if "DefaultTTL (configure opts) > 0"
  proof -
    let ?c' = "?c\<lparr>stopCleanup_closed := True\<rparr>"
    from that have t: "cleanupTicker ?c \<noteq> None" "\<not> stopCleanup_closed ?c"
      by (simp_all add: ticker_run ticker_New closed_run closed_New)
    then have 1: "Close ?c = Inr ?c'" by (simp add: Close_def)
    from t have "Close (run es' ?c') = Inl close_of_closed_channel"
      by (simp add: Close_def ticker_run closed_run)
    with 1 show ?thesis by blast
  qed
  ultimately show ?thesis by blast
qed

theorem C10_close_witness:
  "DefaultTTL (configure []) = 0
   \<and> Close (New [] :: (nat, nat) cache) = Inr (New [])
   \<and> DefaultTTL (configure [WithDefaultTTL 5]) > 0
   \<and> (\<exists>c' :: (nat, nat) cache. Close (New [WithDefaultTTL 5]) = Inr c'
         \<and> Close c' = Inl close_of_closed_channel)"
  using C10_close [of "[]" "[] :: (instant \<times> (nat, nat) event) list"]
    C10_close [of "[WithDefaultTTL 5]" "[] :: (instant \<times> (nat, nat) event) list" "[]"]
  by (simp add: configure_def default_Config_def)

section \<open>The LRU order\<close>

lemmas cache_defs = New_def configure_def default_Config_def Reserve_def NewMemoryStorageWithConfig_def
    Hour_def Minute_def Second_def startCleanup_def cleanupInterval_def
    SetWithTTL_def Set_def store_item_def storage_Get_def IsExpired_def SetTTL_def pool_item_def
    storage_Set_def evict_if_needed_def storage_Size_def storage_Delete_def Contains_def Size_def
    Get_def Keys_def storage_Keys_def Delete_def Clear_def storage_Clear_def cleanup_def
    CleanupExpired_def setBatchItem_def GetBatch_def policy_Size_def

text \<open>
  Claim C4. On an empty LRU policy, after access(a), access(b), access(c), access(a) with
  a, b, c distinct, evict returns b. In an LRU cache of capacity 3, after set k1, set k2,
  set k3, get k1, set k4 (distinct keys, no TTL) exactly k2 has been evicted: the eviction
  counter is 1, the stored keys are k1, k3, k4, each of which is returned by get, and get k2
  misses.
\<close>

theorem C4_lru_evicts_least_recent:
  fixes a b c :: 'a and k1 k2 k3 k4 :: 'k and v1 v2 v3 v4 :: 'v
  assumes "distinct [a, b, c]" and "distinct [k1, k2, k3, k4]"
  shows "fst (Evict (Access a (Access c (Access b (Access a (NewPolicy LRU)))))) = Some b
    \<and> (let c5 = run [(t1, ESet k1 v1), (t2, ESet k2 v2), (t3, ESet k3 v3), (t4, EGet k1),
                     (t5, ESet k4 v4)] (New [WithCapacity 3, WithEvictionPolicy LRU])
       in evictions c5 = 1 \<and> set (Keys c5) = {k1, k3, k4} \<and> Size c5 = 3
          \<and> fst (Get t6 k2 c5) = None \<and> fst (Get t6 k1 c5) = Some v1
          \<and> fst (Get t6 k3 c5) = Some v3 \<and> fst (Get t6 k4 c5) = Some v4)"
proof -
  from assms(1) have 1: "fst (Evict (Access a (Access c (Access b (Access a (NewPolicy LRU)))))) = Some b"
    by auto
  from assms(2) have ne: "k1 \<noteq> k2" "k1 \<noteq> k3" "k1 \<noteq> k4" "k2 \<noteq> k3" "k2 \<noteq> k4" "k3 \<noteq> k4"
    "k2 \<noteq> k1" "k3 \<noteq> k1" "k4 \<noteq> k1" "k3 \<noteq> k2" "k4 \<noteq> k2" "k4 \<noteq> k3"
    by auto
  let ?c0 = "New [WithCapacity 3, WithEvictionPolicy LRU] :: ('k, 'v) cache"
  have c0: "?c0 = \<lparr>storage = [], policy = lruPolicy [], capacity = 3, defaultTTL = 0,
      maxTTL = 86400000000000, hits = 0, misses = 0, evictions = 0, threadSafe = True,
      cleanupTicker = None, stopCleanup_closed = False\<rparr>"
    by (simp add: cache_defs)
  let ?i = "\<lambda>v. \<lparr>Value = v, ExpiresAt = 0, HasTTL = False\<rparr>"
  have c3: "run [(t1, ESet k1 v1), (t2, ESet k2 v2), (t3, ESet k3 v3)] ?c0 =
     \<lparr>storage = [(k1, ?i v1), (k2, ?i v2), (k3, ?i v3)], policy = lruPolicy [k3, k2, k1],
      capacity = 3, defaultTTL = 0,
      maxTTL = 86400000000000, hits = 0, misses = 0, evictions = 0, threadSafe = True,
      cleanupTicker = None, stopCleanup_closed = False\<rparr>"
    unfolding c0 using ne by (simp add: cache_defs)
  have c5: "run [(t1, ESet k1 v1), (t2, ESet k2 v2), (t3, ESet k3 v3), (t4, EGet k1),
                     (t5, ESet k4 v4)] ?c0 =
     \<lparr>storage = [(k1, ?i v1), (k3, ?i v3), (k4, ?i v4)], policy = lruPolicy [k4, k1, k3],
      capacity = 3, defaultTTL = 0,
      maxTTL = 86400000000000, hits = 1, misses = 0, evictions = 1, threadSafe = True,
      cleanupTicker = None, stopCleanup_closed = False\<rparr>"
    unfolding c0 using ne by (simp add: cache_defs)
  show ?thesis
    unfolding Let_def c5 using 1 ne by (simp add: cache_defs)
qed

theorem C4_lru_evicts_least_recent_witness:
  "distinct [1::nat, 2, 3] \<and> distinct [''k1'', ''k2'', ''k3'', ''k4'']
    \<and> fst (Evict (Access (1::nat) (Access 3 (Access 2 (Access 1 (NewPolicy LRU)))))) = Some 2
    \<and> (let c5 = run [(1, ESet ''k1'' ''v1''), (2, ESet ''k2'' ''v2''), (3, ESet ''k3'' ''v3''),
                     (4, EGet ''k1''), (5, ESet ''k4'' ''v4'')]
                   (New [WithCapacity 3, WithEvictionPolicy LRU])
       in evictions c5 = 1 \<and> set (Keys c5) = {''k1'', ''k3'', ''k4''} \<and> Size c5 = 3
          \<and> fst (Get 6 ''k2'' c5) = None \<and> fst (Get 6 ''k1'' c5) = Some ''v1''
          \<and> fst (Get 6 ''k3'' c5) = Some ''v3'' \<and> fst (Get 6 ''k4'' c5) = Some ''v4'')"
  using C4_lru_evicts_least_recent [of "1::nat" 2 3 "''k1''" "''k2''" "''k3''" "''k4''"
      1 "''v1''" 2 "''v2''" 3 "''v3''" 4 5 "''v4''" 6]
  by simp

section \<open>Expired entries: Keys and Contains\<close>

lemma map_of_Some_key: "map_of s k = Some i \<Longrightarrow> k \<in> fst ` set s"
  by (metis map_of_eq_None_iff option.distinct(1))

lemma length_delete_present:
  "distinct (map fst s) \<Longrightarrow> k \<in> fst ` set s \<Longrightarrow> length (AList.delete k s) = length s - 1"
proof (induction s)
  case Nil
  then show ?case by simp
next
  case (Cons a s)
  obtain k' i where a: "a = (k', i)" by (cases a)
  show ?case
  proof (cases "k' = k")
    case True
    with Cons.prems a have "k \<notin> fst ` set s" by auto
    with True a show ?thesis by simp
  next
    case False
    with Cons.prems a have "k \<in> fst ` set s" "distinct (map fst s)" by auto
    with Cons.IH have "length (AList.delete k s) = length s - 1" by simp
    moreover from \<open>k \<in> fst ` set s\<close> have "length s > 0" by auto
    ultimately show ?thesis using False a by simp
  qed
qed

text \<open>
  Claim C8. \<open>Keys\<close> does not filter by expiry: when the store still holds an entry for k
  whose expiry has passed, k is among the keys reported, while \<open>Contains\<close> answers false and
  \<open>Get\<close> answers not-found for it.
\<close>

theorem C8_keys_reports_expired:
  assumes "map_of (storage c) k = Some item" and "IsExpired now item"
  shows "k \<in> set (Keys c) \<and> \<not> fst (Contains now k c) \<and> fst (Get now k c) = None"
proof -
  from assms(1) have "k \<in> fst ` set (storage c)" by (rule map_of_Some_key)
  then have "k \<in> set (Keys c)" by (simp add: Keys_def storage_Keys_def)
  moreover from assms have "storage_Get now k (storage c) = (None, AList.delete k (storage c))"
    by (simp add: storage_Get_def)
  then have "\<not> fst (Contains now k c)" "fst (Get now k c) = None"
    by (simp_all add: Contains_def Get_def)
  ultimately show ?thesis by simp
qed

theorem C8_keys_reports_expired_witness:
  "map_of (storage (snd (SetWithTTL 0 (1::nat) (7::nat) 10 (New [])))) 1
      = Some \<lparr>Value = 7, ExpiresAt = 10, HasTTL = True\<rparr>
   \<and> IsExpired 11 \<lparr>Value = 7::nat, ExpiresAt = 10, HasTTL = True\<rparr>
   \<and> 1 \<in> set (Keys (snd (SetWithTTL 0 (1::nat) (7::nat) 10 (New []))))
   \<and> \<not> fst (Contains 11 1 (snd (SetWithTTL 0 (1::nat) (7::nat) 10 (New []))))
   \<and> fst (Get 11 1 (snd (SetWithTTL 0 (1::nat) (7::nat) 10 (New [])))) = None"
proof -
  have s: "storage (snd (SetWithTTL 0 (1::nat) (7::nat) 10 (New [])))
      = [(1, \<lparr>Value = 7, ExpiresAt = 10, HasTTL = True\<rparr>)]"
    by (simp add: cache_defs)
  have h1: "map_of (storage (snd (SetWithTTL 0 (1::nat) (7::nat) 10 (New [])))) 1
      = Some \<lparr>Value = 7, ExpiresAt = 10, HasTTL = True\<rparr>"
    unfolding s by simp
  have h2: "IsExpired 11 \<lparr>Value = 7::nat, ExpiresAt = 10, HasTTL = True\<rparr>"
    by (simp add: IsExpired_def)
  from C8_keys_reports_expired [OF h1 h2] h1 h2 show ?thesis by simp
qed

text \<open>
  Claim C9. In a coherent cache (every reachable cache is), \<open>Contains\<close> on a key whose stored
  entry has expired returns false and removes the entry from the store, so the size drops by
  one, while the policy is left as it was (it still tracks the key) and the three counters are
  unchanged. On a key that is live or absent, \<open>Contains\<close> returns true, respectively false, and
  leaves the whole cache unchanged.
\<close>

theorem C9_contains_purges_expired:
  assumes "coherent c"
  shows "(\<forall>item. map_of (storage c) k = Some item \<and> IsExpired now item \<longrightarrow>
            \<not> fst (Contains now k c)
            \<and> Size (snd (Contains now k c)) = Size c - 1
            \<and> k \<notin> set (Keys (snd (Contains now k c)))
            \<and> policy (snd (Contains now k c)) = policy c
            \<and> k \<in> set (order (policy (snd (Contains now k c))))
            \<and> hits (snd (Contains now k c)) = hits c
            \<and> misses (snd (Contains now k c)) = misses c
            \<and> evictions (snd (Contains now k c)) = evictions c)
       \<and> (\<forall>item. map_of (storage c) k = Some item \<and> \<not> IsExpired now item \<longrightarrow>
            Contains now k c = (True, c))
       \<and> (map_of (storage c) k = None \<longrightarrow> Contains now k c = (False, c))"
proof (intro conjI allI impI)
  fix item assume a: "map_of (storage c) k = Some item \<and> IsExpired now item"
  then have g: "storage_Get now k (storage c) = (None, AList.delete k (storage c))"
    by (simp add: storage_Get_def)
  from a have kin: "k \<in> fst ` set (storage c)" by (simp add: map_of_Some_key)
  from assms have d: "distinct (map fst (storage c))" by (simp add: coherent_def)
  show "\<not> fst (Contains now k c)" using g by (simp add: Contains_def)
  have "length (storage c) > 0" using kin by auto
  then have "int (length (storage c) - 1) = int (length (storage c)) - 1" by linarith
  then have "int (length (AList.delete k (storage c))) = int (length (storage c)) - 1"
    using length_delete_present [OF d kin] by simp
  then show "Size (snd (Contains now k c)) = Size c - 1"
    using g by (simp add: Contains_def Size_def storage_Size_def)
  show "k \<notin> set (Keys (snd (Contains now k c)))"
    using g delete_notin_dom [of k "storage c"]
    by (simp add: Contains_def Keys_def storage_Keys_def)
  show "policy (snd (Contains now k c)) = policy c" using g by (simp add: Contains_def)
  show "k \<in> set (order (policy (snd (Contains now k c))))"
    using g kin assms by (auto simp: Contains_def coherent_def)
  show "hits (snd (Contains now k c)) = hits c" using g by (simp add: Contains_def)
  show "misses (snd (Contains now k c)) = misses c" using g by (simp add: Contains_def)
  show "evictions (snd (Contains now k c)) = evictions c" using g by (simp add: Contains_def)
next
  fix item assume "map_of (storage c) k = Some item \<and> \<not> IsExpired now item"
  then show "Contains now k c = (True, c)"
    by (simp add: Contains_def storage_Get_def)
next
  assume "map_of (storage c) k = None"
  then show "Contains now k c = (False, c)"
    by (simp add: Contains_def storage_Get_def)
qed

theorem C9_contains_purges_expired_witness:
  "coherent (snd (SetWithTTL 0 (1::nat) (7::nat) 10 (New [])))
   \<and> Contains 11 1 (snd (SetWithTTL 0 (1::nat) (7::nat) 10 (New [])))
       = (False, (snd (SetWithTTL 0 (1::nat) (7::nat) 10 (New [])))\<lparr>storage := []\<rparr>)
   \<and> Size (snd (SetWithTTL 0 (1::nat) (7::nat) 10 (New []))) = 1
   \<and> policy (snd (SetWithTTL 0 (1::nat) (7::nat) 10 (New []))) = lruPolicy [1]
   \<and> Contains 9 1 (snd (SetWithTTL 0 (1::nat) (7::nat) 10 (New [])))
       = (True, snd (SetWithTTL 0 (1::nat) (7::nat) 10 (New [])))
   \<and> Contains 9 2 (snd (SetWithTTL 0 (1::nat) (7::nat) 10 (New [])))
       = (False, snd (SetWithTTL 0 (1::nat) (7::nat) 10 (New [])))"
proof -
  let ?c = "snd (SetWithTTL 0 (1::nat) (7::nat) 10 (New []))"
  have c: "?c = \<lparr>storage = [(1, \<lparr>Value = 7, ExpiresAt = 10, HasTTL = True\<rparr>)],
      policy = lruPolicy [1], capacity = 100, defaultTTL = 0,
      maxTTL = 86400000000000, hits = 0, misses = 0, evictions = 0, threadSafe = True,
      cleanupTicker = None, stopCleanup_closed = False\<rparr>"
    by (simp add: cache_defs)
  have h: "coherent ?c" unfolding c by (simp add: coherent_def)
  from C9_contains_purges_expired [OF h, of 1 11] C9_contains_purges_expired [OF h, of 1 9]
    C9_contains_purges_expired [OF h, of 2 9] h
  show ?thesis unfolding c by (simp add: cache_defs)
qed

section \<open>Batch lookup\<close>

lemma map_of_store_item: "map_of (storage (snd (store_item now k i c))) k = Some i"
  by (simp add: store_item_unfold Let_def storage_Set_def update_conv')

lemma Get_live_value: "fst (Get now k c) = live_value now c k"
  by (simp add: Get_def storage_Get_def live_value_def split: option.splits)

lemma Get_counters:
  "hits (snd (Get now k c)) = (if live now c k then hits c + 1 else hits c)"
  "misses (snd (Get now k c)) = (if live now c k then misses c else misses c + 1)"
  by (simp_all add: Get_def storage_Get_def live_def live_value_def split: option.splits)

lemma live_value_purge:
  "live_value now (c\<lparr>storage := snd (storage_Get now k (storage c))\<rparr>) k' = live_value now c k'"
  by (auto simp: storage_Get_def live_value_def delete_conv' split: option.splits)

lemma live_value_Get: "live_value now (snd (Get now k c)) k' = live_value now c k'"
  using live_value_purge [where now = now and c = c and k = k and k' = k']
  by (simp add: Get_unfold Let_def live_value_def)

lemma live_Get: "live now (snd (Get now k c)) = live now c"
  by (rule ext) (simp add: live_def live_value_Get)

lemma GetBatch_loop_Cons:
  "GetBatch_loop now (k # ks) res c =
     GetBatch_loop now ks
       (case live_value now c k of Some v \<Rightarrow> AList.update k v res | None \<Rightarrow> res)
       (snd (Get now k c))"
  by (simp add: Get_def storage_Get_def live_value_def split: option.splits)

lemma GetBatch_loop_result:
  "map_of (fst (GetBatch_loop now ks res c)) k' =
     (if k' \<in> set ks \<and> live now c k' then live_value now c k' else map_of res k')"
proof (induction ks arbitrary: res c)
  case Nil
  show ?case by simp
next
  case (Cons k ks)
  show ?case
    unfolding GetBatch_loop_Cons Cons.IH live_Get live_value_Get
    by (auto simp: live_def update_conv' split: option.splits)
qed

lemma GetBatch_loop_distinct:
  "distinct (map fst res) \<Longrightarrow> distinct (map fst (fst (GetBatch_loop now ks res c)))"
proof (induction ks arbitrary: res c)
  case Nil
  then show ?case by simp
next
  case (Cons k ks)
  from Cons.prems
  have "distinct (map fst (case live_value now c k of Some v \<Rightarrow> AList.update k v res | None \<Rightarrow> res))"
    by (simp add: distinct_update split: option.splits)
  from Cons.IH [OF this] show ?case unfolding GetBatch_loop_Cons .
qed

lemma GetBatch_loop_hits:
  "hits (snd (GetBatch_loop now ks res c)) = hits c + of_nat (length (filter (live now c) ks))"
proof (induction ks arbitrary: res c)
  case Nil
  show ?case by simp
next
  case (Cons k ks)
  show ?case
    unfolding GetBatch_loop_Cons Cons.IH live_Get
    by (simp add: Get_counters)
qed

lemma GetBatch_loop_misses:
  "misses (snd (GetBatch_loop now ks res c))
     = misses c + of_nat (length (filter (\<lambda>k. \<not> live now c k) ks))"
proof (induction ks arbitrary: res c)
  case Nil
  show ?case by simp
next
  case (Cons k ks)
  show ?case
    unfolding GetBatch_loop_Cons Cons.IH live_Get
    by (simp add: Get_counters)
qed

text \<open>
  Claim C6. \<open>GetBatch\<close> returns a map with exactly one entry for each distinct key of the
  input that is present and not expired, carrying the stored value; \<open>hits\<close> grows by the
  number of occurrences of such keys in the input (a repeated key counts each time) and
  \<open>misses\<close> by the number of occurrences of absent or expired keys, which are left out of
  the result.
\<close>

theorem C6_get_batch:
  assumes "GetBatch now keys c = (res, c')"
  shows "distinct (map fst res)
    \<and> set (map fst res) = {k \<in> set keys. live now c k}
    \<and> (\<forall>k \<in> set keys. live now c k \<longrightarrow> map_of res k = live_value now c k)
    \<and> hits c' = hits c + of_nat (length (filter (live now c) keys))
    \<and> misses c' = misses c + of_nat (length (filter (\<lambda>k. \<not> live now c k) keys))"
proof -
  from assms have res: "res = fst (GetBatch_loop now keys [] c)"
    and c': "c' = snd (GetBatch_loop now keys [] c)"
    by (simp_all add: GetBatch_def)
  have m: "\<And>k. map_of res k = (if k \<in> set keys \<and> live now c k then live_value now c k else None)"
    unfolding res GetBatch_loop_result by simp
  have "distinct (map fst res)" unfolding res by (rule GetBatch_loop_distinct) simp
  moreover have "set (map fst res) = {k \<in> set keys. live now c k}"
  proof -
    have "set (map fst res) = dom (map_of res)" by (simp add: dom_map_of_conv_image_fst)
    also have "\<dots> = {k \<in> set keys. live now c k}"
      by (auto simp: m live_def dom_def)
    finally show ?thesis .
  qed
  moreover have "\<forall>k \<in> set keys. live now c k \<longrightarrow> map_of res k = live_value now c k"
    by (simp add: m)
  moreover have "hits c' = hits c + of_nat (length (filter (live now c) keys))"
    unfolding c' by (rule GetBatch_loop_hits)
  moreover have "misses c' = misses c + of_nat (length (filter (\<lambda>k. \<not> live now c k) keys))"
    unfolding c' by (rule GetBatch_loop_misses)
  ultimately show ?thesis by blast
qed

theorem C6_get_batch_witness:
  "GetBatch 11 [1, 2, 1, 3, 2, 4]
      (run [(0, ESet (1::nat) (10::nat)), (0, ESetWithTTL 2 20 5), (0, ESet 3 30)] (New []))
    = ([(1, 10), (3, 30)],
       (run [(0, ESet (1::nat) (10::nat)), (0, ESetWithTTL 2 20 5), (0, ESet 3 30)] (New []))
         \<lparr>storage := [(1, pool_item 10), (3, pool_item 30)], policy := lruPolicy [3, 1, 2],
          hits := 3, misses := 3\<rparr>)
   \<and> {k \<in> set [1, 2, 1, 3, 2, 4].
        live 11 (run [(0, ESet (1::nat) (10::nat)), (0, ESetWithTTL 2 20 5), (0, ESet 3 30)] (New [])) k}
      = {1, 3}"
proof -
  let ?c = "run [(0, ESet (1::nat) (10::nat)), (0, ESetWithTTL 2 20 5), (0, ESet 3 30)] (New [])"
  have g: "GetBatch 11 [1, 2, 1, 3, 2, 4] ?c
    = ([(1, 10), (3, 30)],
       ?c\<lparr>storage := [(1, pool_item 10), (3, pool_item 30)], policy := lruPolicy [3, 1, 2],
          hits := 3, misses := 3\<rparr>)"
    by (simp add: cache_defs)
  from C6_get_batch [OF g] g show ?thesis by simp
qed

section \<open>Entries without expiry and entries already expired\<close>

text \<open>
  Claim C5, as stated, fails: the TTL passed to \<open>SetWithTTL\<close> is first clamped to the
  configured maximum, so with a negative maximum a TTL of 0 becomes negative and the entry is
  expired at once.
\<close>

theorem C5_zero_ttl_counterexample:
  "fst (Get 1 (1::nat) (snd (SetWithTTL 0 1 (7::nat) 0 (New [WithMaxTTL (- 1)])))) = None
   \<and> misses (snd (Get 1 (1::nat) (snd (SetWithTTL 0 1 (7::nat) 0 (New [WithMaxTTL (- 1)]))))) = 1"
  by (simp add: cache_defs Let_def)

lemma stays_storage_Get:
  assumes "map_of s k = Some i" and "\<not> HasTTL i"
  shows "map_of (snd (storage_Get now key s)) k = Some i"
proof (cases "key = k")
  case True
  with assms show ?thesis by (simp add: storage_Get_def IsExpired_def)
next
  case False
  with assms(1) storage_Get_cases [of now key s] show ?thesis by (elim disjE) simp_all
qed

lemma stays_evict_if_needed:
  assumes "map_of (storage c) k = Some i"
    and "storage_Size (storage c) \<ge> capacity c \<longrightarrow> fst (Evict (policy c)) \<noteq> Some k"
  shows "map_of (storage (evict_if_needed c)) k = Some i"
proof (cases "storage_Size (storage c) \<ge> capacity c")
  case False
  with assms(1) show ?thesis by (simp add: evict_if_needed_def)
next
  case True
  obtain r p where ev: "Evict (policy c) = (r, p)" by (cases "Evict (policy c)")
  show ?thesis
  proof (cases r)
    case None
    with True ev assms(1) show ?thesis by (simp add: evict_if_needed_def)
  next
    case (Some ek)
    with True ev assms(2) have ne: "ek \<noteq> k" by auto
    have "snd (storage_Delete ek (storage c)) = storage c
        \<or> snd (storage_Delete ek (storage c)) = AList.delete ek (storage c)"
      by (simp add: storage_Delete_def split: option.splits)
    with ne assms(1) have "map_of (snd (storage_Delete ek (storage c))) k = Some i"
      by (elim disjE) simp_all
    with True ev Some show ?thesis by (simp add: evict_if_needed_def)
  qed
qed

lemma victim_unfold:
  "victim now key c =
     (if fst (storage_Get now key (storage c)) \<noteq> None then None
      else if storage_Size (snd (storage_Get now key (storage c))) \<ge> capacity c
           then fst (Evict (policy c)) else None)"
  by (cases "storage_Get now key (storage c)")
     (auto simp: victim_def split: option.splits dest: storage_Get_Some)

lemma stays_store_item:
  assumes "key \<noteq> k" and "victim now key c \<noteq> Some k"
    and "map_of (storage c) k = Some i" and "\<not> HasTTL i"
  shows "map_of (storage (snd (store_item now key it c))) k = Some i"
proof -
  let ?c0 = "c\<lparr>storage := snd (storage_Get now key (storage c))\<rparr>"
  have m0: "map_of (storage ?c0) k = Some i"
    using stays_storage_Get [OF assms(3,4), of now key] by simp
  show ?thesis
  proof (cases "fst (storage_Get now key (storage c)) \<noteq> None")
    case True
    with m0 assms(1) show ?thesis
      by (simp add: store_item_unfold Let_def storage_Set_def update_conv')
  next
    case False
    with assms(2)
    have "storage_Size (storage ?c0) \<ge> capacity ?c0 \<longrightarrow> fst (Evict (policy ?c0)) \<noteq> Some k"
      by (auto simp: victim_unfold split: if_splits)
    with m0 have "map_of (storage (evict_if_needed ?c0)) k = Some i"
      by (rule stays_evict_if_needed)
    with False assms(1) show ?thesis
      by (simp add: store_item_unfold Let_def storage_Set_def update_conv')
  qed
qed

lemma stays_Get:
  assumes "map_of (storage c) k = Some i" and "\<not> HasTTL i"
  shows "map_of (storage (snd (Get now key c))) k = Some i"
  using stays_storage_Get [OF assms, of now key] by (simp add: Get_unfold Let_def)

lemma stays_Contains:
  assumes "map_of (storage c) k = Some i" and "\<not> HasTTL i"
  shows "map_of (storage (snd (Contains now key c))) k = Some i"
  using stays_storage_Get [OF assms, of now key] by (simp add: Contains_unfold)

lemma stays_GetBatch_loop:
  "map_of (storage c) k = Some i \<Longrightarrow> \<not> HasTTL i \<Longrightarrow>
     map_of (storage (snd (GetBatch_loop now ks res c))) k = Some i"
proof (induction ks arbitrary: c res)
  case Nil
  then show ?case by simp
next
  case (Cons key ks)
  from Cons.prems have "map_of (storage (snd (Get now key c))) k = Some i" by (rule stays_Get)
  from Cons.IH [OF this Cons.prems(2)] show ?case unfolding GetBatch_loop_snd .
qed

lemma map_of_filter_keeps:
  "map_of s k = Some i \<Longrightarrow> P (k, i) \<Longrightarrow> map_of (filter P s) k = Some i"
  by (induction s) (auto split: if_splits)

lemma stays_cleanup:
  assumes "map_of (storage c) k = Some i" and "\<not> HasTTL i"
  shows "map_of (storage (cleanup now c)) k = Some i"
proof -
  from assms(2) have "(\<lambda>(k, item). \<not> IsExpired now item) (k, i)" by (simp add: IsExpired_def)
  with assms(1) show ?thesis
    by (simp add: cleanup_def CleanupExpired_def map_of_filter_keeps)
qed

lemma stays_Delete:
  assumes "map_of (storage c) k = Some i" and "key \<noteq> k"
  shows "map_of (storage (snd (Delete key c))) k = Some i"
proof -
  have "snd (storage_Delete key (storage c)) = storage c
      \<or> snd (storage_Delete key (storage c)) = AList.delete key (storage c)"
    by (simp add: storage_Delete_def split: option.splits)
  with assms have "map_of (snd (storage_Delete key (storage c))) k = Some i"
    by (elim disjE) simp_all
  then show ?thesis by (simp add: Delete_unfold)
qed

lemma stays_DeleteBatch:
  "map_of (storage c) k = Some i \<Longrightarrow> k \<notin> set ks \<Longrightarrow>
     map_of (storage (snd (DeleteBatch ks c))) k = Some i"
proof (induction ks arbitrary: c)
  case Nil
  then show ?case by simp
next
  case (Cons key ks)
  from Cons.prems have "key \<noteq> k" "k \<notin> set ks" by auto
  from stays_Delete [OF Cons.prems(1) this(1)] Cons.IH [OF _ this(2)]
  show ?case unfolding DeleteBatch_snd by simp
qed

lemma stays_SetBatch:
  "map_of (storage c) k = Some i \<Longrightarrow> \<not> HasTTL i \<Longrightarrow> batch_keeps k now items c \<Longrightarrow>
     map_of (storage (snd (SetBatch now items c))) k = Some i"
proof (induction items arbitrary: c)
  case Nil
  then show ?case by simp
next
  case (Cons a items)
  obtain key v where a: "a = (key, v)" by (cases a)
  from Cons.prems(3) a have ne: "key \<noteq> k" and vi: "victim now key c \<noteq> Some k"
    and bk: "batch_keeps k now items (snd (setBatchItem now key v c))"
    by simp_all
  have "map_of (storage (snd (setBatchItem now key v c))) k = Some i"
    unfolding setBatchItem_def using ne vi Cons.prems(1,2) by (rule stays_store_item)
  from Cons.IH [OF this Cons.prems(2) bk] show ?case unfolding a SetBatch_snd .
qed

lemma stays_step:
  assumes "map_of (storage c) k = Some i" and "\<not> HasTTL i" and "keeps k now e c"
  shows "map_of (storage (step now e c)) k = Some i"
proof (cases e)
  case (EGet key)
  with assms show ?thesis by (simp add: stays_Get)
next
  case (ESet key v)
  with assms show ?thesis by (simp add: Set_def SetWithTTL_def Let_def stays_store_item)
next
  case (ESetWithTTL key v ttl)
  with assms show ?thesis by (simp add: SetWithTTL_def Let_def stays_store_item)
next
  case (EDelete key)
  with assms show ?thesis by (simp add: stays_Delete)
next
  case EClear
  with assms show ?thesis by simp
next
  case ESize
  with assms show ?thesis by simp
next
  case EKeys
  with assms show ?thesis by simp
next
  case (EContains key)
  with assms show ?thesis by (simp add: stays_Contains)
next
  case (ESetBatch items)
  with assms show ?thesis by (simp add: stays_SetBatch)
next
  case (EGetBatch keys)
  with assms show ?thesis by (simp add: GetBatch_def stays_GetBatch_loop)
next
  case (EDeleteBatch keys)
  with assms show ?thesis by (simp add: stays_DeleteBatch)
next
  case ETick
  with assms show ?thesis by (simp add: stays_cleanup)
qed

lemma stays_run:
  "map_of (storage c) k = Some i \<Longrightarrow> \<not> HasTTL i \<Longrightarrow> left_alone k es c \<Longrightarrow>
     map_of (storage (run es c)) k = Some i"
proof (induction es arbitrary: c)
  case Nil
  then show ?case by simp
next
  case (Cons a es)
  obtain now e where a: "a = (now, e)" by (cases a)
  from Cons.prems(3) a have ke: "keeps k now e c" and la: "left_alone k es (step now e c)"
    by simp_all
  from Cons.prems(1,2) ke have "map_of (storage (step now e c)) k = Some i" by (rule stays_step)
  from Cons.IH [OF this Cons.prems(2) la] show ?case by (simp add: a)
qed

text \<open>
  Claim C5, amended. Provided the configured maximum TTL is not negative, an entry stored with
  TTL 0 carries no expiry and never expires: after any sequence of operations and sweeper
  ticks that leaves the key alone (none of them deletes, clears, overwrites or evicts it), the
  entry is still in the store and \<open>Get\<close> at any time returns its value and counts a hit. An
  entry stored with a negative TTL is already expired: \<open>Get\<close> at the time of the store or
  later returns not-found and counts a miss.
\<close>

theorem C5_ttl_zero_and_negative:
  "(0 \<le> maxTTL c \<and> left_alone k es (snd (SetWithTTL now k v 0 c)) \<longrightarrow>
      (let c1 = run es (snd (SetWithTTL now k v 0 c))
       in map_of (storage c1) k = Some \<lparr>Value = v, ExpiresAt = 0, HasTTL = False\<rparr>
          \<and> fst (Get now' k c1) = Some v
          \<and> hits (snd (Get now' k c1)) = hits c1 + 1
          \<and> misses (snd (Get now' k c1)) = misses c1))
   \<and> (ttl < 0 \<and> now \<le> now' \<longrightarrow>
      (let c1 = snd (SetWithTTL now k v ttl c)
       in fst (Get now' k c1) = None
          \<and> misses (snd (Get now' k c1)) = misses c1 + 1
          \<and> hits (snd (Get now' k c1)) = hits c1))"
proof (intro conjI impI)
  assume m: "0 \<le> maxTTL c \<and> left_alone k es (snd (SetWithTTL now k v 0 c))"
  let ?c0 = "snd (SetWithTTL now k v 0 c)"
  let ?c1 = "run es ?c0"
  let ?i = "\<lparr>Value = v, ExpiresAt = 0, HasTTL = False\<rparr>"
  from m have "?c0 = snd (store_item now k ?i c)"
    by (simp add: SetWithTTL_def SetTTL_def pool_item_def)
  then have "map_of (storage ?c0) k = Some ?i" by (simp add: map_of_store_item)
  moreover have "\<not> HasTTL ?i" by simp
  moreover from m have "left_alone k es ?c0" by simp
  ultimately have s: "map_of (storage ?c1) k = Some ?i" by (rule stays_run)
  then have lv: "live_value now' ?c1 k = Some v"
    by (simp add: live_value_def IsExpired_def)
  then have "live now' ?c1 k" by (simp add: live_def)
  with s lv show "let c1 = ?c1
       in map_of (storage c1) k = Some ?i
          \<and> fst (Get now' k c1) = Some v
          \<and> hits (snd (Get now' k c1)) = hits c1 + 1
          \<and> misses (snd (Get now' k c1)) = misses c1"
    by (simp add: Let_def Get_live_value Get_counters)
next
  assume a: "ttl < 0 \<and> now \<le> now'"
  let ?c1 = "snd (SetWithTTL now k v ttl c)"
  define t where "t = (if ttl > maxTTL c then maxTTL c else ttl)"
  from a have t: "t < 0" "t \<noteq> 0" by (auto simp: t_def)
  let ?i = "\<lparr>Value = v, ExpiresAt = now + t, HasTTL = True\<rparr>"
  from t have "?c1 = snd (store_item now k ?i c)"
    by (simp add: SetWithTTL_def SetTTL_def pool_item_def t_def Let_def)
  then have s: "map_of (storage ?c1) k = Some ?i" by (simp add: map_of_store_item)
  from a t have "IsExpired now' ?i" by (simp add: IsExpired_def)
  with s have lv: "live_value now' ?c1 k = None" by (simp add: live_value_def)
  then have "\<not> live now' ?c1 k" by (simp add: live_def)
  with lv show "let c1 = ?c1
       in fst (Get now' k c1) = None
          \<and> misses (snd (Get now' k c1)) = misses c1 + 1
          \<and> hits (snd (Get now' k c1)) = hits c1"
    by (simp add: Let_def Get_live_value Get_counters)
qed

theorem C5_ttl_zero_and_negative_witness:
  "0 \<le> maxTTL (New [WithCapacity 2, WithDefaultTTL 5] :: (nat, nat) cache)
   \<and> left_alone 1 [(3, ETick), (4, ESet 2 8), (20, ETick), (21, EContains 2), (22, ESet 3 9),
        (23, EGetBatch [1, 2, 3]), (24, EDelete 2), (40, ETick)]
        (snd (SetWithTTL 0 (1::nat) (7::nat) 0 (New [WithCapacity 2, WithDefaultTTL 5])))
   \<and> fst (Get 1000 1 (run [(3, ETick), (4, ESet 2 8), (20, ETick), (21, EContains 2),
        (22, ESet 3 9), (23, EGetBatch [1, 2, 3]), (24, EDelete 2), (40, ETick)]
        (snd (SetWithTTL 0 (1::nat) (7::nat) 0 (New [WithCapacity 2, WithDefaultTTL 5]))))) = Some 7
   \<and> (- 5 :: int) < 0 \<and> (0::int) \<le> 0
   \<and> fst (Get 0 1 (snd (SetWithTTL 0 (1::nat) (7::nat) (- 5) (New [])))) = None
   \<and> misses (snd (Get 0 1 (snd (SetWithTTL 0 (1::nat) (7::nat) (- 5) (New []))))) = 1"
proof -
  let ?es = "[(3, ETick), (4, ESet 2 8), (20, ETick), (21, EContains 2), (22, ESet 3 9),
        (23, EGetBatch [1, 2, 3]), (24, EDelete 2), (40, ETick)]"
  let ?c = "New [WithCapacity 2, WithDefaultTTL 5] :: (nat, nat) cache"
  have m: "0 \<le> maxTTL ?c"
    "misses (snd (SetWithTTL 0 (1::nat) (7::nat) (- 5) (New []))) = 0"
    by (simp_all add: cache_defs Let_def)
  have la: "left_alone 1 ?es (snd (SetWithTTL 0 (1::nat) (7::nat) 0 ?c))"
    by (simp add: cache_defs Let_def victim_def signed_divide_int_def)
  from C5_ttl_zero_and_negative [of ?c 1 ?es 0 7 1000 "- 5"]
    C5_ttl_zero_and_negative [of "New [] :: (nat, nat) cache" 1 "[]" 0 7 0 "- 5"] m la
  show ?thesis by (simp add: Let_def)
qed

section \<open>Caches whose entries carry no TTL\<close>

lemma set_update_cases:
  "p \<in> set (AList.update k i s) \<Longrightarrow> p = (k, i) \<or> p \<in> set s"
  by (induction s) (auto split: if_splits)

lemma length_storage_update:
  "length (AList.update k i s) = (if k \<in> fst ` set s then length s else Suc (length s))"
  by (induction s) (auto split: if_splits)

lemma set_delete_subset: "set (AList.delete k s) \<subseteq> set s"
  by (auto simp: AList.delete_eq)

lemma no_ttl_Get:
  assumes "\<forall>(k, i) \<in> set s. \<not> HasTTL i"
  shows "storage_Get now k s = (map_of s k, s)"
proof (cases "map_of s k")
  case None
  then show ?thesis by (simp add: storage_Get_def)
next
  case (Some item)
  then have "(k, item) \<in> set s" by (rule map_of_SomeD)
  with assms have "\<not> HasTTL item" by auto
  with Some show ?thesis by (simp add: storage_Get_def IsExpired_def)
qed

lemma plain_evict_if_needed:
  assumes "plain c"
  shows "plain (evict_if_needed c) \<and>
         (int (length (storage c)) \<ge> capacity c \<longrightarrow>
            int (length (storage (evict_if_needed c))) < capacity c) \<and>
         fst ` set (storage (evict_if_needed c)) \<subseteq> fst ` set (storage c)"
proof (cases "storage_Size (storage c) \<ge> capacity c")
  case False
  with assms show ?thesis by (simp add: evict_if_needed_def storage_Size_def)
next
  case True
  from assms have coh: "coherent c" and sub: "set (order (policy c)) \<subseteq> fst ` set (storage c)"
    and nt: "\<forall>(k, i) \<in> set (storage c). \<not> HasTTL i"
    and cap: "1 \<le> capacity c" "int (length (storage c)) \<le> capacity c"
    by (simp_all add: plain_def)
  from coh have d: "distinct (order (policy c))" "distinct (map fst (storage c))"
    and sup: "fst ` set (storage c) \<subseteq> set (order (policy c))"
    by (simp_all add: coherent_def)
  from True cap have "storage c \<noteq> []" by (auto simp: storage_Size_def)
  then have "fst ` set (storage c) \<noteq> {}" by simp
  with sup have ne: "order (policy c) \<noteq> []" by auto
  obtain r p where ev: "Evict (policy c) = (r, p)" by (cases "Evict (policy c)")
  with ne obtain ek where r: "r = Some ek" using Evict_None [of "policy c" p] by (cases r) auto
  from Evict_Some [OF ev [unfolded r] d(1)]
  have p: "set (order p) = set (order (policy c)) - {ek}" "ek \<in> set (order (policy c))"
    by simp_all
  with sub have ekin: "ek \<in> fst ` set (storage c)" by auto
  have e: "evict_if_needed c =
      c\<lparr>storage := snd (storage_Delete ek (storage c)), policy := p, evictions := evictions c + 1\<rparr>"
    using True ev r by (simp add: evict_if_needed_def)
  from ekin obtain it where "map_of (storage c) ek = Some it"
    by (metis map_of_eq_None_iff not_Some_eq)
  then have sd: "snd (storage_Delete ek (storage c)) = AList.delete ek (storage c)"
    by (simp add: storage_Delete_def)
  have len: "length (AList.delete ek (storage c)) = length (storage c) - 1"
    using d(2) ekin by (rule length_delete_present)
  from \<open>storage c \<noteq> []\<close> have "length (storage c) > 0" by simp
  with len cap have len': "int (length (AList.delete ek (storage c))) < capacity c" by linarith
  have coh': "coherent (evict_if_needed c)" using coh by (rule coherent_evict_if_needed)
  have keys': "fst ` set (AList.delete ek (storage c)) = fst ` set (storage c) - {ek}"
    using storage_Delete_keys [of ek "storage c"] by (simp add: sd)
  have "plain (evict_if_needed c)"
    unfolding plain_def
  proof (intro conjI)
    show "coherent (evict_if_needed c)" by (rule coh')
    show "set (order (policy (evict_if_needed c))) \<subseteq> fst ` set (storage (evict_if_needed c))"
      using sub p keys' by (auto simp: e sd)
    show "\<forall>(k, i) \<in> set (storage (evict_if_needed c)). \<not> HasTTL i"
      using nt set_delete_subset [of ek "storage c"] by (auto simp: e sd)
    show "1 \<le> capacity (evict_if_needed c)" using cap by (simp add: e)
    show "int (length (storage (evict_if_needed c))) \<le> capacity (evict_if_needed c)"
      using len' by (simp add: e sd)
  qed
  moreover have "int (length (storage (evict_if_needed c))) < capacity c"
    using len' by (simp add: e sd)
  moreover have "fst ` set (storage (evict_if_needed c)) \<subseteq> fst ` set (storage c)"
    using keys' by (auto simp: e sd)
  ultimately show ?thesis by simp
qed

lemma plain_insert:
  assumes "plain c" and "\<not> HasTTL i"
    and "k \<in> fst ` set (storage c) \<or> int (length (storage c)) < capacity c"
  shows "plain (c\<lparr>storage := storage_Set k i (storage c), policy := Access k (policy c)\<rparr>)"
  unfolding plain_def
proof (intro conjI)
  let ?c' = "c\<lparr>storage := storage_Set k i (storage c), policy := Access k (policy c)\<rparr>"
  from assms(1) have coh: "coherent c" and sub: "set (order (policy c)) \<subseteq> fst ` set (storage c)"
    and nt: "\<forall>(k, i) \<in> set (storage c). \<not> HasTTL i"
    and cap: "1 \<le> capacity c" "int (length (storage c)) \<le> capacity c"
    by (simp_all add: plain_def)
  show "coherent ?c'" using coh by (rule coherent_insert)
  show "set (order (policy ?c')) \<subseteq> fst ` set (storage ?c')"
    using sub by (auto simp: Access_order storage_Set_keys)
  show "\<forall>(k, i) \<in> set (storage ?c'). \<not> HasTTL i"
    using nt assms(2) set_update_cases [of _ k i "storage c"]
    by (fastforce simp: storage_Set_def)
  show "1 \<le> capacity ?c'" using cap by simp
  show "int (length (storage ?c')) \<le> capacity ?c'"
    using assms(3) cap by (auto simp: storage_Set_def length_storage_update)
qed

lemma plain_store_item:
  assumes "plain c" and "\<not> HasTTL i"
  shows "plain (snd (store_item now k i c))"
proof -
  from assms(1) have nt: "\<forall>(k, i) \<in> set (storage c). \<not> HasTTL i" by (simp add: plain_def)
  have g: "storage_Get now k (storage c) = (map_of (storage c) k, storage c)"
    using nt by (rule no_ttl_Get)
  show ?thesis
  proof (cases "map_of (storage c) k")
    case (Some item)
    then have "k \<in> fst ` set (storage c)" by (rule map_of_Some_key)
    from plain_insert [OF assms, of k] this Some g show ?thesis
      by (simp add: store_item_unfold Let_def)
  next
    case None
    then have kn: "k \<notin> fst ` set (storage c)" by (simp add: map_of_eq_None_iff)
    let ?c1 = "evict_if_needed c"
    from plain_evict_if_needed [OF assms(1)]
    have p1: "plain ?c1"
      and lt: "int (length (storage c)) \<ge> capacity c \<longrightarrow> int (length (storage ?c1)) < capacity c"
      by simp_all
    have s1: "capacity ?c1 = capacity c"
      using settings_evict_if_needed [of c] by (simp add: settings_def)
    have "int (length (storage ?c1)) < capacity ?c1"
    proof (cases "int (length (storage c)) \<ge> capacity c")
      case True
      with lt s1 show ?thesis by simp
    next
      case False
      then have "?c1 = c" by (simp add: evict_if_needed_def storage_Size_def)
      with False show ?thesis by simp
    qed
    with plain_insert [OF p1 assms(2), of k] None g show ?thesis
      by (simp add: store_item_unfold Let_def)
  qed
qed

lemma plain_counters [simp]:
  "plain (c\<lparr>hits := h\<rparr>) = plain c"
  "plain (c\<lparr>misses := m\<rparr>) = plain c"
  "plain (c\<lparr>evictions := e\<rparr>) = plain c"
  by (simp_all add: plain_def)

lemma plain_Get:
  assumes "plain c"
  shows "plain (snd (Get now k c))"
proof -
  from assms have nt: "\<forall>(k, i) \<in> set (storage c). \<not> HasTTL i"
    and sup: "fst ` set (storage c) \<subseteq> set (order (policy c))"
    by (simp_all add: plain_def coherent_def)
  have g: "storage_Get now k (storage c) = (map_of (storage c) k, storage c)"
    using nt by (rule no_ttl_Get)
  show ?thesis
  proof (cases "map_of (storage c) k")
    case None
    with g assms show ?thesis by (simp add: Get_unfold Let_def)
  next
    case (Some item)
    then have "k \<in> fst ` set (storage c)" by (rule map_of_Some_key)
    with sup have "k \<in> set (order (policy c))" by auto
    then have "set (order (Access k (policy c))) = set (order (policy c))"
      by (auto simp: Access_order)
    moreover have "coherent (c\<lparr>policy := Access k (policy c)\<rparr>)"
      using assms by (simp add: plain_def coherent_touch)
    ultimately have "plain (c\<lparr>policy := Access k (policy c)\<rparr>)"
      using assms by (simp add: plain_def)
    with g Some show ?thesis by (simp add: Get_unfold Let_def)
  qed
qed

lemma plain_Contains:
  assumes "plain c"
  shows "snd (Contains now k c) = c"
proof -
  from assms have nt: "\<forall>(k, i) \<in> set (storage c). \<not> HasTTL i" by (simp add: plain_def)
  have "storage_Get now k (storage c) = (map_of (storage c) k, storage c)"
    using nt by (rule no_ttl_Get)
  then show ?thesis by (simp add: Contains_unfold)
qed

lemma plain_Delete:
  assumes "plain c"
  shows "plain (snd (Delete k c))"
proof (cases "fst (storage_Delete k (storage c))")
  case False
  then have "k \<notin> fst ` set (storage c)" by (simp add: storage_Delete_fst)
  then have "map_of (storage c) k = None" by (simp add: map_of_eq_None_iff)
  then have "snd (Delete k c) = c" by (simp add: Delete_def storage_Delete_def)
  with assms show ?thesis by simp
next
  case True
  let ?c' = "c\<lparr>storage := snd (storage_Delete k (storage c)), policy := Remove k (policy c)\<rparr>"
  from True have c': "snd (Delete k c) = ?c'" by (simp add: Delete_unfold)
  from assms have coh: "coherent c" and sub: "set (order (policy c)) \<subseteq> fst ` set (storage c)"
    and nt: "\<forall>(k, i) \<in> set (storage c). \<not> HasTTL i"
    and cap: "1 \<le> capacity c" "int (length (storage c)) \<le> capacity c"
    by (simp_all add: plain_def)
  from coh have d: "distinct (order (policy c))" by (simp add: coherent_def)
  have sd: "snd (storage_Delete k (storage c)) = AList.delete k (storage c)"
    using True by (simp add: storage_Delete_def split: option.splits)
  have "plain ?c'"
    unfolding plain_def
  proof (intro conjI)
    show "coherent ?c'" using coherent_Delete [OF coh, of k] by (simp add: c')
    show "set (order (policy ?c')) \<subseteq> fst ` set (storage ?c')"
      using sub by (auto simp: Remove_order [OF d] storage_Delete_keys)
    show "\<forall>(k, i) \<in> set (storage ?c'). \<not> HasTTL i"
      using nt set_delete_subset [of k "storage c"] by (auto simp: sd)
    show "1 \<le> capacity ?c'" using cap by simp
    show "int (length (storage ?c')) \<le> capacity ?c'"
      using cap length_delete_le [of k "storage c"] by (simp add: sd)
  qed
  with c' show ?thesis by simp
qed

lemma plain_Clear: "1 \<le> capacity c \<Longrightarrow> plain (Clear c)"
  using coherent_Clear [of c]
  by (simp add: plain_def) (simp add: Clear_def storage_Clear_def policy_Clear_order)

lemma plain_cleanup:
  assumes "plain c"
  shows "cleanup now c = c"
proof -
  from assms have nt: "\<forall>(k, i) \<in> set (storage c). \<not> HasTTL i" by (simp add: plain_def)
  then have "filter (\<lambda>(k, item). \<not> IsExpired now item) (storage c) = storage c"
    by (auto simp: IsExpired_def intro!: filter_True)
  then show ?thesis by (simp add: cleanup_def CleanupExpired_def)
qed

lemma plain_SetBatch:
  "plain c \<Longrightarrow> defaultTTL c = 0 \<Longrightarrow> plain (snd (SetBatch now items c))"
proof (induction items arbitrary: c)
  case Nil
  then show ?case by simp
next
  case (Cons a items)
  obtain k v where a: "a = (k, v)" by (cases a)
  let ?c1 = "snd (setBatchItem now k v c)"
  have "\<not> HasTTL (SetTTL now (defaultTTL c) (pool_item v))"
    using Cons.prems(2) by (simp add: SetTTL_def pool_item_def)
  with Cons.prems(1) have p1: "plain ?c1"
    unfolding setBatchItem_def by (rule plain_store_item)
  have "settings ?c1 = settings c" unfolding setBatchItem_def by (rule settings_store_item)
  with Cons.prems(2) have "defaultTTL ?c1 = 0" by (simp add: settings_def)
  with Cons.IH [OF p1] show ?case unfolding a SetBatch_snd by simp
qed

lemma plain_GetBatch_loop: "plain c \<Longrightarrow> plain (snd (GetBatch_loop now ks res c))"
proof (induction ks arbitrary: c res)
  case Nil
  then show ?case by simp
next
  case (Cons k ks)
  from Cons.prems have "plain (snd (Get now k c))" by (rule plain_Get)
  from Cons.IH [OF this] show ?case unfolding GetBatch_loop_snd .
qed

lemma plain_DeleteBatch: "plain c \<Longrightarrow> plain (snd (DeleteBatch ks c))"
proof (induction ks arbitrary: c)
  case Nil
  then show ?case by simp
next
  case (Cons k ks)
  from Cons.prems have "plain (snd (Delete k c))" by (rule plain_Delete)
  from Cons.IH [OF this] show ?case unfolding DeleteBatch_snd .
qed

lemma plain_step:
  assumes "plain c" and "ttl_free c e"
  shows "plain (step now e c)"
proof (cases e)
  case (EGet k)
  with assms show ?thesis by (simp add: plain_Get)
next
  case (ESet k v)
  with assms(2) have "\<not> HasTTL (SetTTL now (if defaultTTL c > maxTTL c then maxTTL c else defaultTTL c) (pool_item v))"
    by (simp add: SetTTL_def pool_item_def)
  with assms(1) ESet show ?thesis
    by (simp add: Set_def SetWithTTL_def Let_def plain_store_item)
next
  case (ESetWithTTL k v ttl)
  with assms(2) have "\<not> HasTTL (SetTTL now (if ttl > maxTTL c then maxTTL c else ttl) (pool_item v))"
    by (simp add: SetTTL_def pool_item_def)
  with assms(1) ESetWithTTL show ?thesis
    by (simp add: SetWithTTL_def Let_def plain_store_item)
next
  case (EDelete k)
  with assms show ?thesis by (simp add: plain_Delete)
next
  case EClear
  from assms(1) have "1 \<le> capacity c" by (simp add: plain_def)
  with EClear show ?thesis by (simp add: plain_Clear)
next
  case ESize
  with assms show ?thesis by simp
next
  case EKeys
  with assms show ?thesis by simp
next
  case (EContains k)
  with assms show ?thesis by (simp add: plain_Contains)
next
  case (ESetBatch items)
  show ?thesis
  proof (cases items)
    case Nil
    with ESetBatch assms show ?thesis by simp
  next
    case (Cons a list)
    with ESetBatch assms(2) have "defaultTTL c = 0" by simp
    with assms(1) ESetBatch show ?thesis by (simp add: plain_SetBatch)
  qed
next
  case (EGetBatch keys)
  with assms show ?thesis by (simp add: GetBatch_def plain_GetBatch_loop)
next
  case (EDeleteBatch keys)
  with assms show ?thesis by (simp add: plain_DeleteBatch)
next
  case ETick
  with assms show ?thesis by (simp add: plain_cleanup)
qed

lemma ttl_free_settings: "settings c' = settings c \<Longrightarrow> ttl_free c' e = ttl_free c e"
  by (cases e) (simp_all add: settings_def)

lemma plain_run:
  "plain c \<Longrightarrow> \<forall>(now, e) \<in> set es. ttl_free c e \<Longrightarrow> plain (run es c)"
proof (induction es arbitrary: c)
  case Nil
  then show ?case by simp
next
  case (Cons a es)
  obtain now e where a: "a = (now, e)" by (cases a)
  from Cons.prems a have tf: "ttl_free c e" by simp
  with Cons.prems(1) have p: "plain (step now e c)" by (rule plain_step)
  have "\<forall>(now', e') \<in> set es. ttl_free (step now e c) e'"
    using Cons.prems(2) ttl_free_settings [OF settings_step [of now e c]] by auto
  from Cons.IH [OF p this] show ?case by (simp add: a)
qed

lemma Capacity_foldl: "1 \<le> Capacity c \<Longrightarrow> 1 \<le> Capacity (foldl apply_Option c opts)"
proof (induction opts arbitrary: c)
  case Nil
  then show ?case by simp
next
  case (Cons a opts)
  from Cons.prems have "1 \<le> Capacity (apply_Option c a)" by (cases a) auto
  from Cons.IH [OF this] show ?case by simp
qed

lemma capacity_New: "1 \<le> capacity (New opts)"
proof -
  have "1 \<le> Capacity (configure opts)"
    unfolding configure_def by (rule Capacity_foldl) (simp add: default_Config_def)
  then show ?thesis by (simp add: New_def Let_def startCleanup_def)
qed

lemma storage_New: "storage (New opts) = []"
  by (simp add: New_def Let_def startCleanup_def Reserve_def NewMemoryStorageWithConfig_def)

lemma policy_New: "order (policy (New opts)) = []"
  by (simp add: New_def Let_def startCleanup_def order_NewPolicy split: option.splits)

lemma plain_New: "plain (New opts :: ('k, 'v) cache)"
proof -
  have "1 \<le> capacity (New opts :: ('k, 'v) cache)" by (rule capacity_New)
  moreover have "coherent (New opts :: ('k, 'v) cache)" by (rule coherent_New)
  ultimately show ?thesis by (simp add: plain_def storage_New policy_New)
qed

section \<open>Runs in which no expired entry is purged\<close>

lemma tight_counters [simp]:
  "tight (c\<lparr>hits := h\<rparr>) = tight c"
  "tight (c\<lparr>misses := m\<rparr>) = tight c"
  "tight (c\<lparr>evictions := e\<rparr>) = tight c"
  by (simp_all add: tight_def)

lemma storage_Get_keys_cases:
  "fst ` set (snd (storage_Get now k s)) = fst ` set s
   \<or> fst ` set (snd (storage_Get now k s)) = fst ` set s - {k}"
proof -
  have "set (map fst (AList.delete k s)) = set (map fst s) - {k}"
    unfolding delete_keys by simp
  then have "fst ` set (AList.delete k s) = fst ` set s - {k}" by simp
  with storage_Get_cases [of now k s] show ?thesis by (elim disjE) simp_all
qed

lemma evict_tracked_within:
  assumes "coherent c" and "set (order (policy c)) \<subseteq> insert k (fst ` set (storage c))"
  shows "set (order (policy (evict_if_needed c))) \<subseteq> insert k (fst ` set (storage (evict_if_needed c)))"
proof (cases "storage_Size (storage c) \<ge> capacity c")
  case False
  with assms(2) show ?thesis by (simp add: evict_if_needed_def)
next
  case True
  obtain r p where ev: "Evict (policy c) = (r, p)" by (cases "Evict (policy c)")
  show ?thesis
  proof (cases r)
    case None
    with ev have "p = policy c" by (simp add: Evict_None)
    with True ev None assms(2) show ?thesis by (simp add: evict_if_needed_def)
  next
    case (Some ek)
    from assms(1) have d: "distinct (order (policy c))" by (simp add: coherent_def)
    from Evict_Some [OF ev [unfolded Some] d]
    have p: "set (order p) = set (order (policy c)) - {ek}" by simp
    have "evict_if_needed c =
        c\<lparr>storage := snd (storage_Delete ek (storage c)), policy := p, evictions := evictions c + 1\<rparr>"
      using True ev Some by (simp add: evict_if_needed_def)
    with assms(2) p show ?thesis
      by (auto simp: storage_Delete_keys)
  qed
qed

lemma tight_store_item:
  assumes "tight c"
  shows "tight (snd (store_item now k i c))"
proof -
  let ?c0 = "c\<lparr>storage := snd (storage_Get now k (storage c))\<rparr>"
  let ?c1 = "if fst (storage_Get now k (storage c)) \<noteq> None then ?c0 else evict_if_needed ?c0"
  from assms have coh: "coherent c" and sub: "set (order (policy c)) \<subseteq> fst ` set (storage c)"
    by (simp_all add: tight_def)
  have c0: "coherent ?c0" using coh by (rule coherent_purge)
  have s0: "set (order (policy ?c0)) \<subseteq> insert k (fst ` set (storage ?c0))"
    using sub storage_Get_keys_cases [of now k "storage c"] by auto
  have c1: "coherent ?c1" using c0 by (simp add: coherent_evict_if_needed)
  have s1: "set (order (policy ?c1)) \<subseteq> insert k (fst ` set (storage ?c1))"
    using s0 evict_tracked_within [OF c0 s0] by simp
  have r: "snd (store_item now k i c)
      = ?c1\<lparr>storage := storage_Set k i (storage ?c1), policy := Access k (policy ?c1)\<rparr>"
    by (simp add: store_item_unfold Let_def)
  have "coherent (snd (store_item now k i c))" using coh by (rule coherent_store_item)
  moreover have "set (order (policy (snd (store_item now k i c))))
      \<subseteq> fst ` set (storage (snd (store_item now k i c)))"
    unfolding r using s1 by (auto simp: Access_order storage_Set_keys)
  ultimately show ?thesis by (simp add: tight_def)
qed

lemma unexpired_Get:
  assumes "\<not> expired_entry now c k"
  shows "storage_Get now k (storage c) = (map_of (storage c) k, storage c)"
  using assms by (auto simp: expired_entry_def storage_Get_def split: option.splits)

lemma tight_Get:
  assumes "tight c" and "\<not> expired_entry now c k"
  shows "tight (snd (Get now k c)) \<and> storage (snd (Get now k c)) = storage c"
proof -
  have g: "storage_Get now k (storage c) = (map_of (storage c) k, storage c)"
    using assms(2) by (rule unexpired_Get)
  show ?thesis
  proof (cases "map_of (storage c) k")
    case None
    with g assms(1) show ?thesis by (simp add: Get_unfold Let_def)
  next
    case (Some item)
    then have "k \<in> fst ` set (storage c)" by (rule map_of_Some_key)
    moreover have "coherent (c\<lparr>policy := Access k (policy c)\<rparr>)"
      using assms(1) by (simp add: tight_def coherent_touch)
    ultimately have "tight (c\<lparr>policy := Access k (policy c)\<rparr>)"
      using assms(1) by (auto simp: tight_def Access_order)
    with g Some show ?thesis by (simp add: Get_unfold Let_def)
  qed
qed

lemma tight_Delete:
  assumes "tight c"
  shows "tight (snd (Delete k c))"
proof (cases "fst (storage_Delete k (storage c))")
  case False
  then have "k \<notin> fst ` set (storage c)" by (simp add: storage_Delete_fst)
  then have "map_of (storage c) k = None" by (simp add: map_of_eq_None_iff)
  then have "snd (Delete k c) = c" by (simp add: Delete_def storage_Delete_def)
  with assms show ?thesis by simp
next
  case True
  let ?c' = "c\<lparr>storage := snd (storage_Delete k (storage c)), policy := Remove k (policy c)\<rparr>"
  from True have c': "snd (Delete k c) = ?c'" by (simp add: Delete_unfold)
  from assms have coh: "coherent c" and sub: "set (order (policy c)) \<subseteq> fst ` set (storage c)"
    by (simp_all add: tight_def)
  from coh have d: "distinct (order (policy c))" by (simp add: coherent_def)
  have "coherent ?c'" using coherent_Delete [OF coh, of k] by (simp add: c')
  moreover have "set (order (policy ?c')) \<subseteq> fst ` set (storage ?c')"
    using sub by (auto simp: Remove_order [OF d] storage_Delete_keys)
  ultimately show ?thesis by (simp add: c' tight_def)
qed

lemma tight_Clear: "tight (Clear c)"
  using coherent_Clear [of c]
  by (simp add: tight_def) (simp add: Clear_def storage_Clear_def policy_Clear_order)

lemma tight_SetBatch: "tight c \<Longrightarrow> tight (snd (SetBatch now items c))"
proof (induction items arbitrary: c)
  case Nil
  then show ?case by simp
next
  case (Cons a items)
  obtain k v where a: "a = (k, v)" by (cases a)
  have "tight (snd (setBatchItem now k v c))"
    unfolding setBatchItem_def using Cons.prems by (rule tight_store_item)
  from Cons.IH [OF this] show ?case unfolding a SetBatch_snd .
qed

lemma tight_GetBatch_loop:
  "tight c \<Longrightarrow> \<not> list_ex (expired_entry now c) ks \<Longrightarrow>
     tight (snd (GetBatch_loop now ks res c))"
proof (induction ks arbitrary: c res)
  case Nil
  then show ?case by simp
next
  case (Cons k ks)
  from Cons.prems(2) have nk: "\<not> expired_entry now c k" and nks: "\<not> list_ex (expired_entry now c) ks"
    by simp_all
  from tight_Get [OF Cons.prems(1) nk]
  have t: "tight (snd (Get now k c))" and s: "storage (snd (Get now k c)) = storage c"
    by simp_all
  from s have "expired_entry now (snd (Get now k c)) = expired_entry now c"
    by (simp add: expired_entry_def fun_eq_iff)
  with nks have "\<not> list_ex (expired_entry now (snd (Get now k c))) ks" by simp
  from Cons.IH [OF t this] show ?case unfolding GetBatch_loop_snd .
qed

lemma tight_DeleteBatch: "tight c \<Longrightarrow> tight (snd (DeleteBatch ks c))"
proof (induction ks arbitrary: c)
  case Nil
  then show ?case by simp
next
  case (Cons k ks)
  from Cons.prems have "tight (snd (Delete k c))" by (rule tight_Delete)
  from Cons.IH [OF this] show ?case unfolding DeleteBatch_snd .
qed

lemma unexpired_cleanup:
  assumes "\<not> list_ex (\<lambda>(k, item). IsExpired now item) (storage c)"
  shows "cleanup now c = c"
proof -
  from assms have "filter (\<lambda>(k, item). \<not> IsExpired now item) (storage c) = storage c"
    by (auto simp: list_ex_iff intro!: filter_True)
  then show ?thesis by (simp add: cleanup_def CleanupExpired_def)
qed

lemma tight_step:
  assumes "tight c" and "\<not> purges now e c"
  shows "tight (step now e c)"
proof (cases e)
  case (EGet k)
  with assms show ?thesis by (simp add: tight_Get)
next
  case (ESet k v)
  with assms(1) show ?thesis by (simp add: Set_def SetWithTTL_def Let_def tight_store_item)
next
  case (ESetWithTTL k v ttl)
  with assms(1) show ?thesis by (simp add: SetWithTTL_def Let_def tight_store_item)
next
  case (EDelete k)
  with assms show ?thesis by (simp add: tight_Delete)
next
  case EClear
  then show ?thesis by (simp add: tight_Clear)
next
  case ESize
  with assms show ?thesis by simp
next
  case EKeys
  with assms show ?thesis by simp
next
  case (EContains k)
  with assms(2) have "\<not> expired_entry now c k" by simp
  then have "storage_Get now k (storage c) = (map_of (storage c) k, storage c)"
    by (rule unexpired_Get)
  then have "snd (Contains now k c) = c" by (simp add: Contains_unfold)
  with EContains assms(1) show ?thesis by simp
next
  case (ESetBatch items)
  with assms(1) show ?thesis by (simp add: tight_SetBatch)
next
  case (EGetBatch keys)
  with assms show ?thesis by (simp add: GetBatch_def tight_GetBatch_loop)
next
  case (EDeleteBatch keys)
  with assms(1) show ?thesis by (simp add: tight_DeleteBatch)
next
  case ETick
  show ?thesis
  proof (cases "cleanupTicker c \<noteq> None \<and> \<not> stopCleanup_closed c")
    case True
    with ETick assms(2) have "\<not> list_ex (\<lambda>(k, item). IsExpired now item) (storage c)" by simp
    then have "cleanup now c = c" by (rule unexpired_cleanup)
    with ETick assms(1) show ?thesis by simp
  next
    case False
    with ETick assms(1) show ?thesis by auto
  qed
qed

lemma tight_run: "tight c \<Longrightarrow> purge_free es c \<Longrightarrow> tight (run es c)"
proof (induction es arbitrary: c)
  case Nil
  then show ?case by simp
next
  case (Cons a es)
  obtain now e where a: "a = (now, e)" by (cases a)
  from Cons.prems a have np: "\<not> purges now e c" and pf: "purge_free es (step now e c)"
    by simp_all
  from Cons.prems(1) np have "tight (step now e c)" by (rule tight_step)
  from Cons.IH [OF this pf] show ?case by (simp add: a)
qed

lemma tight_New: "tight (New opts)"
  using coherent_New [of opts] by (simp add: tight_def) (simp add: policy_New)

section \<open>Capacity, coherence and the eviction counter\<close>

text \<open>
  As long as no event gives an entry a TTL, the store never holds more than \<open>capacity\<close>
  entries.
\<close>

lemma size_within_capacity_without_ttl:
  assumes "\<forall>(now, e) \<in> set es. ttl_free (New opts :: ('k, 'v) cache) e"
  shows "Size (run es (New opts :: ('k, 'v) cache)) \<le> capacity (run es (New opts :: ('k, 'v) cache))"
  using plain_run [OF plain_New assms] by (simp add: plain_def Size_def storage_Size_def)

text \<open>
  Claim C1 fails on the code. The evaluation below is the failing run: capacity 1; an entry
  \<open>a\<close> with a TTL of 1ns is stored and, once expired, purged from the store by \<open>Contains\<close>
  while the policy keeps tracking it; \<open>b\<close> fills the store; storing \<open>c\<close> evicts the stale
  \<open>a\<close> from the policy, removes nothing from the store, and inserts. The cache then holds two
  entries with capacity 1.
\<close>

theorem C1_size_exceeds_capacity:
  "Size (run [(0, ESetWithTTL ''a'' ''x'' 1), (5, EContains ''a''), (5, ESet ''b'' ''y''),
              (6, ESet ''c'' ''z'')] (New [WithCapacity 1])) = 2
   \<and> capacity (run [(0, ESetWithTTL ''a'' ''x'' 1), (5, EContains ''a''), (5, ESet ''b'' ''y''),
              (6, ESet ''c'' ''z'')] (New [WithCapacity 1]) :: (string, string) cache) = 1
   \<and> Keys (run [(0, ESetWithTTL ''a'' ''x'' 1), (5, EContains ''a''), (5, ESet ''b'' ''y''),
              (6, ESet ''c'' ''z'')] (New [WithCapacity 1])) = [''b'', ''c'']"
  by (simp add: cache_defs Let_def)

text \<open>
  Claim C2, as stated, fails: after \<open>Contains\<close> has purged an expired entry the store is
  empty while the policy still tracks the key.
\<close>

theorem C2_sizes_agree_counterexample:
  "Size (run [(0, ESetWithTTL (1::nat) (7::nat) 10), (11, EContains 1)] (New [])) = 0
   \<and> storage_Size (storage (run [(0, ESetWithTTL (1::nat) (7::nat) 10), (11, EContains 1)] (New []))) = 0
   \<and> policy_Size (policy (run [(0, ESetWithTTL (1::nat) (7::nat) 10), (11, EContains 1)] (New []))) = 1
   \<and> storage_Keys (storage (run [(0, ESetWithTTL (1::nat) (7::nat) 10), (11, EContains 1)] (New []))) = []
   \<and> order (policy (run [(0, ESetWithTTL (1::nat) (7::nat) 10), (11, EContains 1)] (New []))) = [1]"
  by (simp add: cache_defs Let_def)

text \<open>
  Claim C2, amended. After every sequence of public operations and sweeper ticks on a fresh
  cache, the coordinator's size is the store's size, every stored key is tracked by the policy,
  and so the store's size is at most the policy's size. As long as no lookup (get, contains,
  get_batch) and no sweeper tick of the sequence has removed an expired entry from the store,
  the policy's key set equals the store's key set and the three sizes are equal.
\<close>

theorem C2_store_within_policy:
  fixes es :: "(instant \<times> ('k, 'v) event) list"
  shows "Size (run es (New opts)) = storage_Size (storage (run es (New opts)))
    \<and> set (storage_Keys (storage (run es (New opts)))) \<subseteq> set (order (policy (run es (New opts))))
    \<and> storage_Size (storage (run es (New opts))) \<le> policy_Size (policy (run es (New opts)))
    \<and> (purge_free es (New opts) \<longrightarrow>
          set (storage_Keys (storage (run es (New opts)))) = set (order (policy (run es (New opts))))
          \<and> Size (run es (New opts)) = policy_Size (policy (run es (New opts))))"
proof -
  let ?c = "run es (New opts) :: ('k, 'v) cache"
  have coh: "coherent ?c" by (rule coherent_run) (rule coherent_New)
  then have d: "distinct (map fst (storage ?c))" "distinct (order (policy ?c))"
    and sub: "fst ` set (storage ?c) \<subseteq> set (order (policy ?c))"
    by (simp_all add: coherent_def)
  have ls: "length (storage ?c) = card (fst ` set (storage ?c))"
    using distinct_card [OF d(1)] by simp
  have lp: "length (order (policy ?c)) = card (set (order (policy ?c)))"
    using distinct_card [OF d(2)] by simp
  have le: "length (storage ?c) \<le> length (order (policy ?c))"
    unfolding ls lp using sub by (simp add: card_mono)
  have eq: "fst ` set (storage ?c) = set (order (policy ?c))
      \<and> length (storage ?c) = length (order (policy ?c))"
    if "purge_free es (New opts :: ('k, 'v) cache)"
  proof -
    from tight_run [OF tight_New that] have "set (order (policy ?c)) \<subseteq> fst ` set (storage ?c)"
      by (simp add: tight_def)
    with sub have "fst ` set (storage ?c) = set (order (policy ?c))" by auto
    then show ?thesis using ls lp by simp
  qed
  show ?thesis
    using sub le eq by (simp add: Size_def storage_Size_def storage_Keys_def policy_Size_def)
qed

theorem C2_store_within_policy_witness:
  "purge_free [(0, ESetWithTTL (1::nat) (7::nat) 10), (5, ETick), (6, EGet 1), (7, ESet 2 8),
       (20, EDelete 1), (21, EContains 1), (22, ETick)] (New [WithDefaultTTL 100])
   \<and> storage_Keys (storage (run [(0, ESetWithTTL (1::nat) (7::nat) 10), (5, ETick), (6, EGet 1),
         (7, ESet 2 8), (20, EDelete 1), (21, EContains 1), (22, ETick)]
         (New [WithDefaultTTL 100]))) = [2]
   \<and> order (policy (run [(0, ESetWithTTL (1::nat) (7::nat) 10), (5, ETick), (6, EGet 1),
         (7, ESet 2 8), (20, EDelete 1), (21, EContains 1), (22, ETick)]
         (New [WithDefaultTTL 100]))) = [2]
   \<and> Size (run [(0, ESetWithTTL (1::nat) (7::nat) 10), (5, ETick), (6, EGet 1),
         (7, ESet 2 8), (20, EDelete 1), (21, EContains 1), (22, ETick)]
         (New [WithDefaultTTL 100])) = 1
   \<and> policy_Size (policy (run [(0, ESetWithTTL (1::nat) (7::nat) 10), (5, ETick), (6, EGet 1),
         (7, ESet 2 8), (20, EDelete 1), (21, EContains 1), (22, ETick)]
         (New [WithDefaultTTL 100]))) = 1"
proof -
  let ?es = "[(0, ESetWithTTL (1::nat) (7::nat) 10), (5, ETick), (6, EGet 1), (7, ESet 2 8),
       (20, EDelete 1), (21, EContains 1), (22, ETick)]"
  let ?c = "New [WithDefaultTTL 100] :: (nat, nat) cache"
  have h: "purge_free ?es ?c"
    by (simp add: cache_defs Let_def expired_entry_def signed_divide_int_def)
  have k: "storage_Keys (storage (run ?es ?c)) = [2]"
    "order (policy (run ?es ?c)) = [2]"
    "Size (run ?es ?c) = 1"
    "policy_Size (policy (run ?es ?c)) = 1"
    by (simp_all add: cache_defs Let_def signed_divide_int_def)
  from C2_store_within_policy [of ?es "[WithDefaultTTL 100]"] h k show ?thesis
    by simp
qed

text \<open>
  Claim C3 fails on the code. In the run of C1, just before \<open>c\<close> is stored the policy's
  victim is \<open>a\<close>, which the store no longer holds: deleting it is a no-op, the stored keys
  are unchanged by the eviction, and yet the eviction counter goes from 0 to 1.
\<close>

theorem C3_stale_victim_counted:
  "fst (Evict (policy (run [(0, ESetWithTTL ''a'' ''x'' 1), (5, EContains ''a''),
          (5, ESet ''b'' ''y'')] (New [WithCapacity 1] :: (string, string) cache)))) = Some ''a''
   \<and> Keys (run [(0, ESetWithTTL ''a'' ''x'' 1), (5, EContains ''a''),
          (5, ESet ''b'' ''y'')] (New [WithCapacity 1] :: (string, string) cache)) = [''b'']
   \<and> fst (storage_Delete ''a'' (storage (run [(0, ESetWithTTL ''a'' ''x'' 1), (5, EContains ''a''),
          (5, ESet ''b'' ''y'')] (New [WithCapacity 1] :: (string, string) cache)))) = False
   \<and> evictions (run [(0, ESetWithTTL ''a'' ''x'' 1), (5, EContains ''a''),
          (5, ESet ''b'' ''y'')] (New [WithCapacity 1] :: (string, string) cache)) = 0
   \<and> evictions (snd (Set 6 ''c'' ''z'' (run [(0, ESetWithTTL ''a'' ''x'' 1), (5, EContains ''a''),
          (5, ESet ''b'' ''y'')] (New [WithCapacity 1])))) = 1
   \<and> Keys (snd (Set 6 ''c'' ''z'' (run [(0, ESetWithTTL ''a'' ''x'' 1), (5, EContains ''a''),
          (5, ESet ''b'' ''y'')] (New [WithCapacity 1])))) = [''b'', ''c'']"
  by (simp add: cache_defs Let_def)

end
